theory Spec2Isabelle
  imports Complex_Main "HOL-Library.Log_Nat"
begin

section \<open>Library functions the editor calls\<close>

text \<open>
  The editor core computes on JavaScript numbers. Positions, pitches, durations and
  mask indices are integers throughout the editor and are modelled as \<open>int\<close>.
  \<open>quantizePosition\<close> divides and multiplies, so there a number is an IEEE 754
  double: every quotient and product is rounded to the nearest double, as below.
\<close>

text \<open>
  lodash \<open>_.clamp(number, lower, upper)\<close>. Called with two arguments the single bound
  is the upper one and there is no lower bound: lodash moves \<open>lower\<close> to \<open>upper\<close>
  when \<open>upper\<close> is undefined. \<open>baseClamp\<close> first caps at the upper bound, then
  raises to the lower bound, each only if it is defined.
\<close>

definition baseClamp :: "int \<Rightarrow> int option \<Rightarrow> int option \<Rightarrow> int" where
  "baseClamp number lower upper =
     (let number1 = (case upper of None \<Rightarrow> number
                     | Some u \<Rightarrow> if number \<le> u then number else u)
      in (case lower of None \<Rightarrow> number1
          | Some l \<Rightarrow> if number1 \<ge> l then number1 else l))"

definition clamp :: "int \<Rightarrow> int \<Rightarrow> int option \<Rightarrow> int" where
  "clamp number lower upper =
     (case upper of
        None \<Rightarrow> baseClamp number None (Some lower)
      | Some u \<Rightarrow> baseClamp number (Some lower) (Some u))"

text \<open>
  lodash \<open>_.range(start, end)\<close> with no step: the step is 1 when \<open>start < end\<close> and
  -1 otherwise, and \<open>end\<close> is excluded. So \<open>_.range(2, 4)\<close> is \<open>[2, 3]\<close> and
  \<open>_.range(4, 2)\<close> is \<open>[4, 3]\<close>.
\<close>

definition range_lodash :: "int \<Rightarrow> int \<Rightarrow> int list" where
  "range_lodash start end_n =
     (if start < end_n then [start..end_n - 1]
      else map (\<lambda>k. start - int k) [0..<nat (start - end_n)])"

text \<open>\<open>Math.floor\<close>, \<open>Math.ceil\<close> and \<open>Math.round\<close> (halves round up).\<close>

definition Math_floor :: "rat \<Rightarrow> int" where
  "Math_floor x = \<lfloor>x\<rfloor>"

definition Math_ceil :: "rat \<Rightarrow> int" where
  "Math_ceil x = \<lceil>x\<rceil>"

definition Math_round :: "rat \<Rightarrow> int" where
  "Math_round x = \<lfloor>x + 1 / 2\<rfloor>"

subsection \<open>JavaScript numbers\<close>

text \<open>
  A JavaScript number is a double: a finite value, one of the two infinities, or NaN.
  A finite double is a rational \<open>m * 2 ^ e\<close> with \<open>|m| < 2 ^ 53\<close> and
  \<open>-1074 \<le> e\<close>, of magnitude at most \<open>MAX_VALUE\<close> (about 1.8e308). The sign
  of zero is not modelled.
\<close>

datatype number = Finite rat | PosInfinity | NegInfinity | NaN

text \<open>
  \<open>ilog2 x\<close> is the integer part of the binary logarithm of a positive \<open>x\<close>, and
  \<open>exponent x\<close> the exponent of the last bit of the 53-bit significand of the
  doubles next to \<open>x\<close>; it stops at -1074, where the subnormal doubles lie.
\<close>

definition ilog2 :: "rat \<Rightarrow> int" where
  "ilog2 x = (if 1 \<le> x then bitlen \<lfloor>x\<rfloor> - 1 else - bitlen (\<lceil>1 / x\<rceil> - 1))"

definition exponent :: "rat \<Rightarrow> int" where
  "exponent x = max (ilog2 \<bar>x\<bar> - 52) (- 1074)"

text \<open>Rounding to the nearest integer, a tie to the even one.\<close>

definition round_half_even :: "rat \<Rightarrow> int" where
  "round_half_even r =
     (let f = \<lfloor>r\<rfloor>; d = r - of_int f
      in if d < 1 / 2 then f else if d > 1 / 2 then f + 1
         else if even f then f else f + 1)"

definition MAX_VALUE :: rat where
  "MAX_VALUE = 2 ^ 1024 - 2 ^ 971"

text \<open>
  \<open>fl x\<close> is the double that an arithmetic operation with the exact result \<open>x\<close>
  returns: \<open>x\<close> rounded to 53 significant bits, nearest and ties to even
  (\<open>rnd\<close>), and an infinity when that lies beyond \<open>MAX_VALUE\<close>.
\<close>

definition rnd :: "rat \<Rightarrow> rat" where
  "rnd x = of_int (round_half_even (x / 2 powi exponent x)) * 2 powi exponent x"

definition overflow :: "rat \<Rightarrow> number" where
  "overflow y =
     (if y > MAX_VALUE then PosInfinity
      else if y < - MAX_VALUE then NegInfinity
      else Finite y)"

definition fl :: "rat \<Rightarrow> number" where
  "fl x = overflow (rnd x)"

text \<open>
  Division and multiplication of a number by a finite number \<open>d\<close>, and a \<open>Math\<close>
  rounding function applied to a number: the infinities and NaN pass through it.
\<close>

definition number_divide :: "number \<Rightarrow> rat \<Rightarrow> number" where
  "number_divide x d =
     (case x of
        Finite a \<Rightarrow>
          (if d = 0 then (if a = 0 then NaN else if 0 < a then PosInfinity else NegInfinity)
           else fl (a / d))
      | PosInfinity \<Rightarrow> (if d < 0 then NegInfinity else PosInfinity)
      | NegInfinity \<Rightarrow> (if d < 0 then PosInfinity else NegInfinity)
      | NaN \<Rightarrow> NaN)"

definition number_times :: "number \<Rightarrow> rat \<Rightarrow> number" where
  "number_times x d =
     (case x of
        Finite a \<Rightarrow> fl (a * d)
      | PosInfinity \<Rightarrow> (if d = 0 then NaN else if 0 < d then PosInfinity else NegInfinity)
      | NegInfinity \<Rightarrow> (if d = 0 then NaN else if 0 < d then NegInfinity else PosInfinity)
      | NaN \<Rightarrow> NaN)"

definition math_apply :: "(rat \<Rightarrow> int) \<Rightarrow> number \<Rightarrow> number" where
  "math_apply fn x = (case x of Finite a \<Rightarrow> Finite (of_int (fn a)) | _ \<Rightarrow> x)"


text \<open>
  The order of numbers (NaN compares with nothing), and the numbers that are not NaN
  and not beyond \<open>MAX_VALUE\<close>.
\<close>

definition number_le :: "number \<Rightarrow> number \<Rightarrow> bool" where
  "number_le x y =
     (case (x, y) of
        (NaN, _) \<Rightarrow> False
      | (_, NaN) \<Rightarrow> False
      | (NegInfinity, _) \<Rightarrow> True
      | (_, PosInfinity) \<Rightarrow> True
      | (Finite a, Finite b) \<Rightarrow> a \<le> b
      | _ \<Rightarrow> False)"


text \<open>
  A JavaScript \<open>Set<number>\<close> is a duplicate-free sequence in insertion order:
  \<open>add\<close> appends a new element and ignores a present one, \<open>delete\<close> removes it,
  \<open>new Set(array)\<close> adds the elements of the array one by one.
\<close>

definition set_add :: "int \<Rightarrow> int list \<Rightarrow> int list" where
  "set_add x s = (if x \<in> set s then s else s @ [x])"

definition set_delete :: "int \<Rightarrow> int list \<Rightarrow> int list" where
  "set_delete x s = removeAll x s"

definition new_Set :: "int list \<Rightarrow> int list" where
  "new_Set xs = fold set_add xs []"

text \<open>
  Reading and writing an array of arrays by index. JavaScript reads \<open>undefined\<close>
  beyond the end (and \<open>new Set(undefined)\<close> is the empty set), and a write beyond
  the end extends the array; the holes are modelled as empty arrays.
\<close>

definition array_get :: "int list list \<Rightarrow> nat \<Rightarrow> int list" where
  "array_get xs i = (if i < length xs then xs ! i else [])"

definition array_set :: "int list list \<Rightarrow> nat \<Rightarrow> int list \<Rightarrow> int list list" where
  "array_set xs i v =
     (if i < length xs then xs[i := v]
      else xs @ replicate (i - length xs) [] @ [v])"

section \<open>Notes\<close>

text \<open>
  Modelled from the spec: the \<open>Note\<close> class, whose file is not among the sources. A
  note has a pitch, a position and a duration in sixteenth steps, a voice (the index
  of one of the four voices), a source and two flags. Every note object gets a
  unique id at construction, so the id stands for the identity of the object: the
  store below keeps the objects by id, and \<open>===\<close> on notes is equality of ids.
\<close>

datatype Source = USER | AGENT

record Note =
  pitch :: int
  position :: int
  duration :: int
  voice :: nat
  source :: Source
  isPlaying :: bool
  isMasked :: bool

text \<open>
  Modelled from the spec: the four voices of the \<open>Voice\<close> enumeration, in the order
  the spec lists them. The voice of a note is the index of its mask in
  \<open>generationMasks\<close>.
\<close>

definition SOPRANO :: nat where "SOPRANO = 0"
definition ALTO :: nat where "ALTO = 1"
definition TENOR :: nat where "TENOR = 2"
definition BASS :: nat where "BASS = 3"

text \<open>
  Modelled from the spec: the derived \<open>start\<close> (the position) and \<open>end\<close> (position
  plus duration) of a note, and \<open>moveStart(x)\<close>, which recomputes position and
  duration so that the end stays where it was.
\<close>

definition start :: "Note \<Rightarrow> int" where
  "start n = position n"

definition end_n :: "Note \<Rightarrow> int" where
  "end_n n = position n + duration n"

definition moveStart :: "int \<Rightarrow> Note \<Rightarrow> Note" where
  "moveStart x n = n\<lparr>position := x, duration := end_n n - x\<rparr>"

text \<open>
  The pitch bounds \<open>MIN_PITCH\<close> and \<open>MAX_PITCH\<close> come from the constants file, which
  is not among the sources; they are parameters of the functions that use them.
\<close>

record constants =
  MIN_PITCH :: int
  MAX_PITCH :: int

section \<open>The editor\<close>

text \<open>
  The state of the \<open>Editor\<close> class. \<open>heap\<close> holds the note objects by id, so that a
  note changed in place is changed for every collection that refers to it.
  \<open>notesMap\<close> and \<open>tempNotesMap\<close> are the keys of the two \<open>Map<number, Note>\<close> in
  insertion order: both maps are only ever written with \<open>set(note.id, note)\<close>, so
  the entry under a key is the object with that id. \<open>currentlyPlayingNotes\<close> is the
  \<open>Set<Note>\<close> in insertion order. The undo manager keeps its snapshots outside the
  editor and is not part of this state.
\<close>

record editor =
  heap :: "nat \<Rightarrow> Note"
  notesMap :: "nat list"
  tempNotesMap :: "nat list"
  currentlyPlayingNotes :: "nat list"
  generationMasks :: "int list list"
  totalSixteenths :: int
  quantizeStep :: int

datatype error = TypeError

definition tempNotes :: "editor \<Rightarrow> nat list" where
  "tempNotes e = tempNotesMap e"

definition allNotes :: "editor \<Rightarrow> nat list" where
  "allNotes e = notesMap e @ tempNotes e"

subsection \<open>Quantization and clamping\<close>

text \<open>
  \<open>quantizePosition(position, fn = Math.round)\<close>: the rounding function is an explicit
  argument. The position is divided by the quantize step, rounded by \<open>fn\<close>, and
  multiplied by the step again, each time in double arithmetic. The quantize step is
  an integer-valued number (the editor sets it to 2).
\<close>

definition quantizePosition :: "editor \<Rightarrow> (rat \<Rightarrow> int) \<Rightarrow> number \<Rightarrow> number" where
  "quantizePosition e fn position' =
     number_times (math_apply fn (number_divide position' (of_int (quantizeStep e))))
       (of_int (quantizeStep e))"

definition clampPosition :: "editor \<Rightarrow> int \<Rightarrow> int" where
  "clampPosition e position' = clamp position' (totalSixteenths e - 1) None"

definition clampLoopPosition :: "editor \<Rightarrow> int \<Rightarrow> int" where
  "clampLoopPosition e postion = clamp postion 0 (Some (totalSixteenths e))"

definition clampPitch :: "constants \<Rightarrow> int \<Rightarrow> int" where
  "clampPitch c pitch' = clamp pitch' (MIN_PITCH c) (Some (MAX_PITCH c))"

subsection \<open>Playing notes\<close>

definition setCurrentlyPlaying :: "editor \<Rightarrow> nat \<Rightarrow> editor" where
  "setCurrentlyPlaying e note =
     e\<lparr>heap := (heap e)(note := (heap e note)\<lparr>isPlaying := True\<rparr>),
       currentlyPlayingNotes :=
         (if note \<in> set (currentlyPlayingNotes e) then currentlyPlayingNotes e
          else currentlyPlayingNotes e @ [note])\<rparr>"

definition getNoteByPitchPosition :: "editor \<Rightarrow> int \<Rightarrow> int \<Rightarrow> nat option" where
  "getNoteByPitchPosition e pitch' position' =
     find (\<lambda>note. pitch (heap e note) = pitch' \<and> position (heap e note) = position')
       (allNotes e)"

text \<open>The body of the loop that clears the notes the playhead has passed.\<close>

definition clearPassed :: "int \<Rightarrow> nat \<Rightarrow> editor \<Rightarrow> editor" where
  "clearPassed position' playingNote e =
     (if position (heap e playingNote) + duration (heap e playingNote) \<le> position'
      then e\<lparr>heap := (heap e)(playingNote := (heap e playingNote)\<lparr>isPlaying := False\<rparr>),
             currentlyPlayingNotes := removeAll playingNote (currentlyPlayingNotes e)\<rparr>
      else e)"

text \<open>
  \<open>setNotePlaying\<close>: the first use of the looked-up note is guarded by \<open>if (note)\<close>,
  the second one reads \<open>note.id\<close> unguarded, which throws a \<open>TypeError\<close> when the
  lookup found nothing.
\<close>

definition setNotePlaying :: "editor \<Rightarrow> int \<Rightarrow> int \<Rightarrow> error + editor" where
  "setNotePlaying e pitch' position' =
     (let note = getNoteByPitchPosition e pitch' position';
          e1 = (case note of Some n \<Rightarrow> setCurrentlyPlaying e n | None \<Rightarrow> e)
      in (case note of
            None \<Rightarrow> Inl TypeError
          | Some n \<Rightarrow>
              (let e2 = (if n \<in> set (tempNotesMap e1) then setCurrentlyPlaying e1 n else e1)
               in Inr (fold (clearPassed position') (currentlyPlayingNotes e2) e2))))"

subsection \<open>Adding and removing notes\<close>

text \<open>The internal, non-undoable methods \<open>_addNote\<close> and \<open>_removeNote\<close>.\<close>

definition addNote_internal :: "editor \<Rightarrow> nat \<Rightarrow> editor" where
  "addNote_internal e note =
     e\<lparr>notesMap := (if note \<in> set (notesMap e) then notesMap e else notesMap e @ [note])\<rparr>"

definition removeNote_internal :: "editor \<Rightarrow> nat \<Rightarrow> editor" where
  "removeNote_internal e note = e\<lparr>notesMap := removeAll note (notesMap e)\<rparr>"

text \<open>
  The public \<open>removeNote\<close>: its body is the single call \<open>this.removeNote(note)\<close>, the
  method itself. The undoable wrapper runs the body between its two snapshots and
  does not end the recursion. \<open>None\<close> is the call that never returns a state.
\<close>

partial_function (option) removeNote :: "editor \<Rightarrow> nat \<Rightarrow> editor option" where
  "removeNote e note = removeNote e note"

subsection \<open>Drag conflicts\<close>

text \<open>
  \<open>endNoteDrag\<close> walks the array \<open>allNotes\<close>, skips the dragged note, and for every
  other note on the same pitch and position deletes the key \<open>note.id\<close>, the id of the
  dragged note, from \<open>notesMap\<close>.
\<close>

definition endNoteDragStep :: "nat \<Rightarrow> nat \<Rightarrow> editor \<Rightarrow> editor" where
  "endNoteDragStep note other e =
     (if other = note then e
      else if position (heap e other) = position (heap e note)
              \<and> pitch (heap e other) = pitch (heap e note)
      then e\<lparr>notesMap := removeAll note (notesMap e)\<rparr>
      else e)"

definition endNoteDrag :: "editor \<Rightarrow> nat \<Rightarrow> editor" where
  "endNoteDrag e note = fold (endNoteDragStep note) (allNotes e) e"

subsection \<open>Overlaps\<close>

text \<open>
  \<open>overlaps(note, positionRange, pitchRange)\<close>, the same code in both editor files
  (the older one calls the pitch \<open>value\<close>). The two ranges are two-element arrays.
\<close>

definition overlaps :: "Note \<Rightarrow> int \<times> int \<Rightarrow> int \<times> int \<Rightarrow> bool" where
  "overlaps n positionRange pitchRange =
     (let startPosition = fst positionRange; endPosition = snd positionRange;
          startValue = fst pitchRange; endValue = snd pitchRange
      in if pitch n < startValue \<or> pitch n > endValue then False
         else if position n \<ge> startPosition \<and> position n < endPosition then True
         else if position n < startPosition \<and> position n + duration n > startPosition
         then True
         else False)"

text \<open>The body of the \<open>forEach\<close> of \<open>trimOverlappingVoices\<close>.\<close>

definition trimStep :: "nat \<Rightarrow> nat \<Rightarrow> editor \<Rightarrow> editor" where
  "trimStep note otherNote e =
     (if end_n (heap e otherNote) > end_n (heap e note)
      then e\<lparr>heap := (heap e)(otherNote := moveStart (end_n (heap e note)) (heap e otherNote))\<rparr>
      else removeNote_internal e otherNote)"

definition trimOverlappingVoices :: "constants \<Rightarrow> editor \<Rightarrow> nat \<Rightarrow> editor" where
  "trimOverlappingVoices c e note =
     (let range' = (start (heap e note), end_n (heap e note));
          overlappingNotes =
            filter (\<lambda>otherNote. otherNote \<noteq> note
                      \<and> voice (heap e otherNote) = voice (heap e note)
                      \<and> overlaps (heap e otherNote) range' (MIN_PITCH c, MAX_PITCH c))
              (allNotes e)
      in fold (trimStep note) overlappingNotes e)"

text \<open>
  Two notes intersect when their intervals \<open>[start, end)\<close> share a step. \<open>trimmed\<close>
  is the filter of \<open>trimOverlappingVoices\<close>: the other notes of the store in the
  voice of note \<open>x\<close> that \<open>overlaps\<close> accepts for its interval.
\<close>

definition intersects :: "Note \<Rightarrow> Note \<Rightarrow> bool" where
  "intersects a b = ({start a..<end_n a} \<inter> {start b..<end_n b} \<noteq> {})"

definition trimmed :: "constants \<Rightarrow> editor \<Rightarrow> nat \<Rightarrow> nat \<Rightarrow> bool" where
  "trimmed c e x k \<longleftrightarrow>
     k \<in> set (allNotes e) \<and> k \<noteq> x \<and> voice (heap e k) = voice (heap e x)
     \<and> overlaps (heap e k) (start (heap e x), end_n (heap e x)) (MIN_PITCH c, MAX_PITCH c)"

subsection \<open>Generation masks\<close>

definition addMask :: "editor \<Rightarrow> nat \<Rightarrow> int list \<Rightarrow> editor" where
  "addMask e voiceIndex mask' =
     (let maskSet = new_Set (array_get (generationMasks e) voiceIndex);
          maskSet1 = fold set_add mask' maskSet
      in e\<lparr>generationMasks := array_set (generationMasks e) voiceIndex (sort maskSet1)\<rparr>)"

definition removeMask :: "editor \<Rightarrow> nat \<Rightarrow> int list \<Rightarrow> editor" where
  "removeMask e voiceIndex mask' =
     (let maskSet = new_Set (array_get (generationMasks e) voiceIndex);
          maskSet1 = fold set_delete mask' maskSet
      in e\<lparr>generationMasks := array_set (generationMasks e) voiceIndex (sort maskSet1)\<rparr>)"

text \<open>The body of the \<open>forEach\<close> of \<open>maskNotes\<close>.\<close>

definition maskStep :: "int \<times> int \<Rightarrow> nat \<Rightarrow> editor \<Rightarrow> editor" where
  "maskStep positionRange note e =
     (let maskStart = max (fst positionRange) (start (heap e note));
          maskEnd = min (snd positionRange) (end_n (heap e note));
          maskRange = range_lodash maskStart maskEnd
      in addMask e (voice (heap e note)) maskRange)"

definition maskNotes :: "editor \<Rightarrow> int \<times> int \<Rightarrow> int \<times> int \<Rightarrow> editor" where
  "maskNotes e positionRange pitchRange =
     (let notesInMask =
            filter (\<lambda>note. overlaps (heap e note) positionRange pitchRange) (allNotes e)
      in fold (maskStep positionRange) notesInMask e)"





section \<open>The flag-toggling editor\<close>

text \<open>
  The older \<open>Editor\<close> class keeps two maps from the key \<open>pitch:position\<close> to a note
  object; a key is modelled as the pair of the two numbers. The objects live in
  \<open>objects\<close> by reference, since one object may sit under several keys.
\<close>

record flag_editor =
  objects :: "nat \<Rightarrow> Note"
  userNotesMap :: "((int \<times> int) \<times> nat) list"
  agentNotesMap :: "((int \<times> int) \<times> nat) list"

definition userNotes :: "flag_editor \<Rightarrow> nat list" where
  "userNotes e = map snd (userNotesMap e)"

definition agentNotes :: "flag_editor \<Rightarrow> nat list" where
  "agentNotes e = map snd (agentNotesMap e)"

definition toggleStep :: "int \<times> int \<Rightarrow> int \<times> int \<Rightarrow> nat \<Rightarrow> flag_editor \<Rightarrow> flag_editor" where
  "toggleStep positionRange valueRange note e =
     (if overlaps (objects e note) positionRange valueRange
      then e\<lparr>objects := (objects e)(note := (objects e note)\<lparr>isMasked := \<not> isMasked (objects e note)\<rparr>)\<rparr>
      else e)"

definition maskNotes_flag :: "flag_editor \<Rightarrow> int \<times> int \<Rightarrow> int \<times> int \<Rightarrow> flag_editor" where
  "maskNotes_flag e positionRange valueRange =
     fold (toggleStep positionRange valueRange) (userNotes e @ agentNotes e) e"

section \<open>Example states\<close>

text \<open>
  A note on pitch 60 at position 0, four steps long, in the soprano voice, and an
  editor without notes: four empty masks, a timeline of 32 steps, quantize step 2.
\<close>

definition example_note :: Note where
  "example_note = \<lparr>pitch = 60, position = 0, duration = 4, voice = SOPRANO,
     source = USER, isPlaying = False, isMasked = False\<rparr>"

definition example_editor :: editor where
  "example_editor = \<lparr>heap = (\<lambda>_. example_note), notesMap = [], tempNotesMap = [],
     currentlyPlayingNotes = [], generationMasks = [[], [], [], []],
     totalSixteenths = 32, quantizeStep = 2\<rparr>"

text \<open>The same editor with the example note as its one persistent note, under id 1.\<close>

definition one_note_editor :: editor where
  "one_note_editor = example_editor\<lparr>notesMap := [1]\<rparr>"

text \<open>The empty editor with steps 2 and 3 of the soprano voice masked.\<close>

definition masked_editor :: editor where
  "masked_editor = example_editor\<lparr>generationMasks := [[2, 3], [], [], []]\<rparr>"

text \<open>
  Pitch bounds for the examples, and two stores in the soprano voice: note 1 on steps
  \<open>[0, 8)\<close>, note 2 on \<open>[4, 8)\<close> and note 3 on \<open>[6, 10)\<close>, all persistent; and note 1
  persistent with note 2 a temp note.
\<close>

definition example_constants :: constants where
  "example_constants = \<lparr>MIN_PITCH = 36, MAX_PITCH = 81\<rparr>"

definition three_note_editor :: editor where
  "three_note_editor = example_editor
     \<lparr>heap := (\<lambda>_. example_note)
        (1 := example_note\<lparr>duration := 8\<rparr>,
         2 := example_note\<lparr>position := 4\<rparr>,
         3 := example_note\<lparr>position := 6\<rparr>),
      notesMap := [1, 2, 3]\<rparr>"

definition temp_note_editor :: editor where
  "temp_note_editor = example_editor
     \<lparr>heap := (\<lambda>_. example_note)
        (1 := example_note\<lparr>duration := 8\<rparr>,
         2 := example_note\<lparr>position := 4\<rparr>),
      notesMap := [1], tempNotesMap := [2]\<rparr>"

text \<open>The empty editor with the quantize step set to 5.\<close>

definition step_five_editor :: editor where
  "step_five_editor = example_editor\<lparr>quantizeStep := 5\<rparr>"

section \<open>Quantization and clamping: results\<close>

lemma clampPitch_in_range:
  "MIN_PITCH c \<le> MAX_PITCH c \<Longrightarrow>
     MIN_PITCH c \<le> clampPitch c p \<and> clampPitch c p \<le> MAX_PITCH c"
  by (simp add: clampPitch_def clamp_def baseClamp_def)

lemma clampLoopPosition_in_range:
  "0 \<le> totalSixteenths e \<Longrightarrow>
     0 \<le> clampLoopPosition e p \<and> clampLoopPosition e p \<le> totalSixteenths e"
  by (simp add: clampLoopPosition_def clamp_def baseClamp_def)

text \<open>
  C7. \<open>clampPosition\<close> passes a single bound to \<open>_.clamp\<close>, which is then the upper
  bound: a position at or below \<open>totalSixteenths - 1\<close> is returned as it is, a negative
  one included, so \<open>clampPosition(-1)\<close> is \<open>-1\<close> and not within
  \<open>[0, totalSixteenths - 1]\<close>. (\<open>clampLoopPosition\<close> passes the lower bound 0, and
  \<open>clampPitch\<close> stays within its bounds, as the two lemmas above show.)
\<close>

theorem clampPosition_no_lower_bound:
  "p \<le> totalSixteenths e - 1 \<Longrightarrow> clampPosition e p = p"
  by (simp add: clampPosition_def clamp_def baseClamp_def)

theorem clampPosition_no_lower_bound_witness:
  "(-1::int) \<le> totalSixteenths example_editor - 1
   \<and> clampPosition example_editor (-1) = -1
   \<and> \<not> (0 \<le> clampPosition example_editor (-1))"
  using clampPosition_no_lower_bound [of "-1" example_editor]
  by (simp add: example_editor_def)

section \<open>JavaScript numbers: results\<close>

lemma ilog2_bounds:
  assumes "0 < x"
  shows "2 powi (ilog2 x) \<le> x \<and> x < 2 powi (ilog2 x + 1)"
proof (cases "1 \<le> x")
  case True
  let ?m = "\<lfloor>x\<rfloor>"
  have m: "0 < ?m" using True by simp
  let ?b = "bitlen ?m"
  have b1: "1 \<le> ?b" using m bitlen_eq_zero_iff [of ?m] bitlen_nonneg [of ?m] by linarith
  from bitlen_bounds [OF m] have lo: "2 ^ nat (?b - 1) \<le> ?m" and hi: "?m < 2 ^ nat ?b" by auto
  have "(2::rat) ^ nat (?b - 1) \<le> of_int ?m"
    using lo by (metis of_int_le_iff of_int_numeral of_int_power)
  also have "\<dots> \<le> x" by simp
  finally have 1: "(2::rat) powi (?b - 1) \<le> x"
    using b1 by (simp add: power_int_def)
  have "?m + 1 \<le> 2 ^ nat ?b" using hi by simp
  then have "(of_int (?m + 1) :: rat) \<le> 2 ^ nat ?b"
    by (metis of_int_le_iff of_int_numeral of_int_power)
  moreover have "x < of_int (?m + 1)" by linarith
  ultimately have 2: "x < (2::rat) powi ?b"
    using b1 by (simp add: power_int_def)
  show ?thesis using True 1 2 by (simp add: ilog2_def)
next
  case False
  let ?t = "1 / x"
  have t: "1 < ?t" using False assms by simp
  let ?m = "\<lceil>?t\<rceil>"
  have m2: "2 \<le> ?m" using t by (simp add: le_ceiling_iff) 
  let ?b = "bitlen (?m - 1)"
  have pos: "0 < ?m - 1" using m2 by simp
  have b0: "0 \<le> ?b" by (rule bitlen_nonneg)
  have b1: "1 \<le> ?b" using pos bitlen_eq_zero_iff [of "?m - 1"] b0 by linarith
  from bitlen_bounds [OF pos] have lo: "2 ^ nat (?b - 1) \<le> ?m - 1" and hi: "?m - 1 < 2 ^ nat ?b" by auto
  have "?m \<le> 2 ^ nat ?b" using hi by simp
  then have "(of_int ?m :: rat) \<le> 2 ^ nat ?b"
    by (metis of_int_le_iff of_int_numeral of_int_power)
  moreover have "?t \<le> of_int ?m" by simp
  ultimately have tb: "?t \<le> 2 ^ nat ?b" by linarith
  have "(2::rat) ^ nat (?b - 1) \<le> of_int (?m - 1)"
    using lo by (metis of_int_le_iff of_int_numeral of_int_power)
  moreover have "of_int (?m - 1) < ?t" by linarith
  ultimately have ta: "(2::rat) ^ nat (?b - 1) < ?t" by linarith
  have p: "(0::rat) < 2 ^ nat ?b" "(0::rat) < 2 ^ nat (?b - 1)" by simp_all
  have 1: "(2::rat) powi (- ?b) \<le> x"
  proof -
    have "1 / (2::rat) ^ nat ?b \<le> x"
      using tb assms p by (simp add: field_simps)
    moreover have "(2::rat) powi (- ?b) = 1 / 2 ^ nat ?b"
      using b0 by (simp add: power_int_minus power_int_def field_simps)
    ultimately show ?thesis by simp
  qed
  have 2: "x < (2::rat) powi (- ?b + 1)"
  proof -
    have "x < 1 / (2::rat) ^ nat (?b - 1)"
      using ta assms p by (simp add: field_simps)
    moreover have "(2::rat) powi (- ?b + 1) = 1 / 2 ^ nat (?b - 1)"
    proof -
      have "(2::rat) powi (- ?b + 1) = 2 powi (- (?b - 1))" by simp
      also have "\<dots> = 1 / 2 ^ nat (?b - 1)"
        using b1 by (simp only: power_int_minus) (simp add: power_int_def field_simps)
      finally show ?thesis .
    qed
    ultimately show ?thesis by simp
  qed
  show ?thesis using False 1 2 by (simp add: ilog2_def)
qed


lemma ilog2_unique:
  assumes "0 < x" and "2 powi k \<le> x" and "x < 2 powi (k + 1)"
  shows "ilog2 x = k"
proof -
  let ?j = "ilog2 x"
  from ilog2_bounds [OF assms(1)] have j: "2 powi ?j \<le> x" "x < 2 powi (?j + 1)" by auto
  have "\<not> ?j < k"
  proof
    assume "?j < k"
    then have "(2::rat) powi (?j + 1) \<le> 2 powi k"
      by (intro power_int_increasing) auto
    with j(2) assms(2) show False by linarith
  qed
  moreover have "\<not> k < ?j"
  proof
    assume "k < ?j"
    then have "(2::rat) powi (k + 1) \<le> 2 powi ?j"
      by (intro power_int_increasing) auto
    with j(1) assms(3) show False by linarith
  qed
  ultimately show ?thesis by linarith
qed

lemma ilog2_mono:
  assumes "0 < x" and "x \<le> y"
  shows "ilog2 x \<le> ilog2 y"
proof (rule ccontr)
  assume "\<not> ilog2 x \<le> ilog2 y"
  then have "(2::rat) powi (ilog2 y + 1) \<le> 2 powi (ilog2 x)"
    by (intro power_int_increasing) auto
  moreover have "y < 2 powi (ilog2 y + 1)" "2 powi (ilog2 x) \<le> x"
    using ilog2_bounds [of x] ilog2_bounds [of y] assms by auto
  ultimately show False using assms(2) by linarith
qed

lemma exponent_minus [simp]: "exponent (- x) = exponent x"
  by (simp add: exponent_def)



lemma pow2_pos [simp]: "(0::rat) < 2 powi e"
  by simp


lemma scaled_ge:
  assumes "x \<noteq> 0" and "- 1074 < exponent x"
  shows "2 ^ 52 \<le> \<bar>x\<bar> / 2 powi exponent x"
proof -
  have e: "exponent x = ilog2 \<bar>x\<bar> - 52"
    using assms(2) by (auto simp: exponent_def max_def split: if_splits)
  have "(2::rat) powi exponent x * 2 ^ 52 = 2 powi (ilog2 \<bar>x\<bar>)"
    by (simp add: e power_int_diff)
  also have "\<dots> \<le> \<bar>x\<bar>"
    using ilog2_bounds [of "\<bar>x\<bar>"] assms by simp
  finally show ?thesis
    by (simp add: field_simps)
qed

lemma exponent_eq:
  assumes "2 ^ 52 \<le> \<bar>x\<bar> / 2 powi e" and "\<bar>x\<bar> / 2 powi e < 2 ^ 53" and "- 1074 \<le> e"
  shows "exponent x = e"
proof -
  have pos: "0 < \<bar>x\<bar>"
    using assms(1) by (cases "x = 0") auto
  have "(2::rat) powi (e + 52) = 2 powi e * 2 ^ 52" "(2::rat) powi (e + 52 + 1) = 2 powi e * 2 ^ 53"
    by (simp_all add: power_int_add)
  then have "2 powi (e + 52) \<le> \<bar>x\<bar>" "\<bar>x\<bar> < 2 powi (e + 52 + 1)"
    using assms(1,2) by (simp_all add: field_simps)
  then have "ilog2 \<bar>x\<bar> = e + 52"
    by (intro ilog2_unique pos)
  then show ?thesis
    using assms(3) by (simp add: exponent_def)
qed


lemma round_half_even_of_int [simp]: "round_half_even (of_int n) = n"
  by (simp add: round_half_even_def)

lemma round_half_even_cases:
  "round_half_even r = \<lfloor>r\<rfloor> \<or> round_half_even r = \<lfloor>r\<rfloor> + 1"
  by (simp add: round_half_even_def Let_def)

lemma round_half_even_error: "\<bar>of_int (round_half_even r) - r\<bar> \<le> 1 / 2"
proof -
  define d where "d = r - of_int \<lfloor>r\<rfloor>"
  have d: "0 \<le> d" "d < 1" unfolding d_def by linarith+
  have r: "r = of_int \<lfloor>r\<rfloor> + d" by (simp add: d_def)
  consider "d < 1 / 2" | "d > 1 / 2" | "d = 1 / 2" by linarith
  then show ?thesis
  proof cases
    case 1
    then have "round_half_even r = \<lfloor>r\<rfloor>"
      by (simp add: round_half_even_def Let_def d_def)
    then have "of_int (round_half_even r) - r = - d" by (simp add: d_def)
    then show ?thesis using 1 d by (simp add: abs_if)
  next
    case 2
    then have "round_half_even r = \<lfloor>r\<rfloor> + 1"
      by (simp add: round_half_even_def Let_def d_def)
    then have "of_int (round_half_even r) - r = 1 - d"
      by (simp add: d_def)
    then show ?thesis using 2 d by (simp add: abs_if)
  next
    case 3
    from round_half_even_cases [of r] show ?thesis
    proof
      assume "round_half_even r = \<lfloor>r\<rfloor>"
      then have "of_int (round_half_even r) - r = - d" by (simp add: d_def)
      then show ?thesis using 3 by (simp add: abs_if)
    next
      assume "round_half_even r = \<lfloor>r\<rfloor> + 1"
      then have "of_int (round_half_even r) - r = 1 - d" by (simp add: d_def)
      then show ?thesis using 3 by (simp add: abs_if)
    qed
  qed
qed




lemma round_half_even_zero [simp]: "round_half_even 0 = 0"
  using round_half_even_of_int [of 0] by simp

lemma rnd_zero [simp]: "rnd 0 = 0"
  by (simp add: rnd_def)






lemma rnd_exact:
  assumes "x = of_int m * 2 powi e" and "\<bar>m\<bar> < 2 ^ 53" and "- 1074 \<le> e"
  shows "rnd x = x"
proof (cases "x = 0")
  case True
  then show ?thesis by simp
next
  case False
  have "\<bar>x\<bar> = of_int \<bar>m\<bar> * 2 powi e"
    by (simp add: assms(1) abs_mult)
  also have "\<dots> < 2 ^ 53 * 2 powi e"
  proof -
    have "(of_int \<bar>m\<bar> :: rat) < of_int (2 ^ 53)" using assms(2) by (simp only: of_int_less_iff)
    then show ?thesis by (simp add: mult_strict_right_mono)
  qed
  also have "\<dots> = 2 powi (e + 53)" by (simp add: power_int_add)
  finally have ub: "\<bar>x\<bar> < 2 powi (e + 53)" .
  have "2 powi (ilog2 \<bar>x\<bar>) \<le> \<bar>x\<bar>"
    using ilog2_bounds [of "\<bar>x\<bar>"] False by simp
  with ub have "(2::rat) powi (ilog2 \<bar>x\<bar>) < 2 powi (e + 53)" by linarith
  then have "ilog2 \<bar>x\<bar> < e + 53"
    by (metis linorder_not_less one_le_numeral power_int_increasing)
  then have le: "exponent x \<le> e"
    using assms(3) by (simp add: exponent_def)
  define k where "k = nat (e - exponent x)"
  define P :: rat where "P = 2 powi exponent x"
  have P: "0 < P" by (simp add: P_def)
  have "(2::rat) powi (e - exponent x) = 2 ^ k"
    using le by (simp add: k_def power_int_def)
  moreover have "(2::rat) powi e = 2 powi (exponent x) * 2 powi (e - exponent x)"
    by (simp add: power_int_add [symmetric])
  ultimately have "(2::rat) powi e = P * 2 ^ k"
    by (simp add: P_def)
  then have x: "x = of_int (m * 2 ^ k) * P"
    by (simp add: assms(1))
  then have "x / P = of_int (m * 2 ^ k)"
    using P by simp
  then have "round_half_even (x / P) = m * 2 ^ k"
    by (simp only: round_half_even_of_int)
  then have "rnd x = of_int (m * 2 ^ k) * P"
    by (simp add: rnd_def P_def)
  then show ?thesis using x by simp
qed

lemma rnd_error:
  assumes "x \<noteq> 0" and "- 1074 < exponent x"
  shows "\<bar>rnd x - x\<bar> \<le> \<bar>x\<bar> / 2 ^ 53"
proof -
  let ?e = "exponent x"
  let ?s = "x / 2 powi ?e"
  have "rnd x - x = (of_int (round_half_even ?s) - ?s) * 2 powi ?e"
    by (simp add: rnd_def field_simps)
  then have "\<bar>rnd x - x\<bar> = \<bar>of_int (round_half_even ?s) - ?s\<bar> * 2 powi ?e"
    by (simp add: abs_mult)
  also have "\<dots> \<le> 1 / 2 * 2 powi ?e"
    using round_half_even_error [of ?s] by (intro mult_right_mono) auto
  also have "\<dots> \<le> \<bar>x\<bar> / 2 ^ 53"
  proof -
    have "2 ^ 52 \<le> \<bar>x\<bar> / 2 powi ?e"
      using scaled_ge [OF assms] .
    then have "2 ^ 52 * 2 powi ?e \<le> \<bar>x\<bar>"
      by (simp add: field_simps)
    then show ?thesis by simp
  qed
  finally show ?thesis .
qed



lemma le_MAX_VALUE: "x \<le> 2 ^ 53 \<Longrightarrow> x \<le> MAX_VALUE"
  by (simp add: MAX_VALUE_def)

lemma overflow_Finite: "\<bar>y\<bar> \<le> MAX_VALUE \<Longrightarrow> overflow y = Finite y"
  by (auto simp: overflow_def)





lemma fl_exact:
  assumes "x = of_int m * 2 powi e" and "\<bar>m\<bar> < 2 ^ 53" and "- 1074 \<le> e" and "\<bar>x\<bar> \<le> MAX_VALUE"
  shows "fl x = Finite x"
  using rnd_exact [OF assms(1-3)] assms(4) by (simp add: fl_def overflow_Finite)

lemma fl_of_int:
  assumes "\<bar>n\<bar> < 2 ^ 53"
  shows "fl (of_int n) = Finite (of_int n)"
proof (rule fl_exact [where m = n and e = 0])
  show "(of_int n :: rat) = of_int n * 2 powi 0" by simp
  show "\<bar>n\<bar> < 2 ^ 53" by fact
  show "- 1074 \<le> (0::int)" by simp
  have "\<bar>of_int n :: rat\<bar> = of_int \<bar>n\<bar>" by simp
  also have "\<dots> \<le> of_int (2 ^ 53)" using assms by (simp only: of_int_le_iff)
  also have "\<dots> \<le> MAX_VALUE" by (intro le_MAX_VALUE) simp
  finally show "\<bar>of_int n :: rat\<bar> \<le> MAX_VALUE" .
qed


lemma not_Ints_floor:
  fixes r :: rat
  assumes "r \<notin> \<int>"
  shows "r \<noteq> of_int \<lfloor>r\<rfloor>"
proof
  assume "r = of_int \<lfloor>r\<rfloor>"
  then have "r \<in> \<int>" by (metis Ints_of_int)
  with assms show False by simp
qed

lemma fraction_gap:
  fixes p q :: int
  assumes "0 < q" and "(of_int p / of_int q :: rat) \<notin> \<int>"
  shows "of_int \<lfloor>of_int p / of_int q :: rat\<rfloor> + 1 / of_int q \<le> (of_int p / of_int q :: rat)"
    and "(of_int p / of_int q :: rat) \<le> of_int \<lfloor>of_int p / of_int q :: rat\<rfloor> + 1 - 1 / of_int q"
proof -
  let ?r = "of_int p / of_int q :: rat"
  have fl: "\<lfloor>?r\<rfloor> = p div q" by (rule floor_divide_of_int_eq)
  have m0: "p mod q \<noteq> 0"
  proof
    assume "p mod q = 0"
    then have "p = q * (p div q)" by auto
    then have "(of_int p :: rat) = of_int q * of_int (p div q)"
      by (metis of_int_mult)
    then have "?r = of_int (p div q)"
      using assms(1) by simp
    then show False using assms(2) by simp
  qed
  have m: "1 \<le> p mod q" "p mod q \<le> q - 1"
    using m0 assms(1) pos_mod_bound [of q p] pos_mod_sign [of q p] by linarith+
  have "p = q * (p div q) + p mod q" by simp
  then have "(of_int p :: rat) = of_int q * of_int (p div q) + of_int (p mod q)"
    by (metis of_int_add of_int_mult)
  then have r: "?r = of_int (p div q) + of_int (p mod q) / of_int q"
    using assms(1) by (simp add: field_simps)
  have q: "(0::rat) < of_int q" using assms(1) by simp
  have "(1::rat) \<le> of_int (p mod q)" "(of_int (p mod q) :: rat) \<le> of_int q - 1"
    using m by (simp_all add: of_int_le_iff [symmetric] del: of_int_le_iff)
  then have "1 / of_int q \<le> (of_int (p mod q) / of_int q :: rat)"
    and "(of_int (p mod q) / of_int q :: rat) \<le> 1 - 1 / of_int q"
    using q by (simp_all add: field_simps)
  then show "of_int \<lfloor>?r\<rfloor> + 1 / of_int q \<le> ?r" and "?r \<le> of_int \<lfloor>?r\<rfloor> + 1 - 1 / of_int q"
    unfolding fl using r by linarith+
qed

lemma near_floor:
  fixes y r c d :: rat
  assumes "\<bar>y - r\<bar> < d" and "of_int n + d \<le> r + c" and "r + c \<le> of_int n + 1 - d"
  shows "\<lfloor>y + c\<rfloor> = n" and "\<lceil>y + c\<rceil> = n + 1"
proof -
  have 1: "of_int n < y + c" and 2: "y + c < of_int n + 1"
    using assms by (simp_all add: abs_less_iff)
  show "\<lfloor>y + c\<rfloor> = n" using 1 2 by (intro floor_unique) auto
  show "\<lceil>y + c\<rceil> = n + 1" using 1 2 by (intro ceiling_unique) auto
qed

lemma ilog2_pow2: "ilog2 (2 powi k) = k"
  by (rule ilog2_unique) (auto intro: power_int_strict_increasing)


lemma fl_quotient:
  fixes a s :: int
  assumes a: "\<bar>a\<bar> < 2 ^ 52" and s: "0 < s" "s \<le> 2 ^ 52"
  shows "\<exists>y. fl (of_int a / of_int s) = Finite y
           \<and> \<lfloor>y\<rfloor> = \<lfloor>of_int a / of_int s :: rat\<rfloor>
           \<and> \<lceil>y\<rceil> = \<lceil>of_int a / of_int s :: rat\<rceil>
           \<and> \<lfloor>y + 1 / 2\<rfloor> = \<lfloor>of_int a / of_int s + 1 / 2 :: rat\<rfloor>"
proof -
  let ?r = "of_int a / of_int s :: rat"
  have sr: "(1::rat) \<le> of_int s" "(of_int s :: rat) \<le> 2 ^ 52"
    using s by (simp_all add: of_int_le_iff [symmetric] del: of_int_le_iff)
  have ar: "\<bar>of_int a :: rat\<bar> < 2 ^ 52"
  proof -
    have "(of_int \<bar>a\<bar> :: rat) < of_int (2 ^ 52)" using a by (simp only: of_int_less_iff)
    then show ?thesis by simp
  qed
  have rabs: "\<bar>?r\<bar> = \<bar>of_int a\<bar> / of_int s"
    using sr by (simp add: abs_divide)
  have r_le: "\<bar>?r\<bar> \<le> \<bar>of_int a\<bar>"
  proof -
    have "\<bar>of_int a :: rat\<bar> / of_int s \<le> \<bar>of_int a\<bar> / 1"
      using sr(1) by (intro divide_left_mono) auto
    then show ?thesis unfolding rabs by simp
  qed
  have r_lt: "\<bar>?r\<bar> < 2 ^ 52 / of_int s"
    unfolding rabs using sr ar by (simp add: divide_strict_right_mono)
  show ?thesis
  proof (cases "2 * ?r \<in> \<int>")
    case True
    then obtain m :: int where m: "2 * ?r = of_int m" by (auto elim: Ints_cases)
    have "\<bar>of_int m :: rat\<bar> < of_int (2 ^ 53)"
      using r_le ar unfolding m [symmetric] by (simp add: abs_mult)
    then have "(of_int \<bar>m\<bar> :: rat) < of_int (2 ^ 53)" by simp
    then have m53: "\<bar>m\<bar> < 2 ^ 53" by (simp only: of_int_less_iff)
    have "?r = of_int m * 2 powi (- 1)"
      using m by (simp add: power_int_minus field_simps)
    moreover have "\<bar>?r\<bar> \<le> MAX_VALUE"
      using r_le ar by (intro le_MAX_VALUE) simp
    ultimately have "fl ?r = Finite ?r"
      using m53 by (intro fl_exact [where m = m and e = "- 1"]) auto
    then show ?thesis by simp
  next
    case False
    define d :: rat where "d = 1 / (2 * of_int s)"
    have d: "0 < d" "d \<le> 1 / of_int s" "d \<le> 1 / 2"
      using sr by (simp_all add: d_def field_simps)
    have r0: "?r \<noteq> 0" using False by auto
    have rZ: "?r \<notin> \<int>"
    proof
      assume "?r \<in> \<int>"
      then obtain n :: int where "?r = of_int n" by (auto elim: Ints_cases)
      then have "2 * ?r = of_int (2 * n)" by simp
      then show False using False by (metis Ints_of_int)
    qed
    have wZ: "(of_int (2 * a + s) / of_int (2 * s) :: rat) \<notin> \<int>"
    proof
      assume "(of_int (2 * a + s) / of_int (2 * s) :: rat) \<in> \<int>"
      then obtain n :: int where n: "(of_int (2 * a + s) / of_int (2 * s) :: rat) = of_int n"
        by (auto elim: Ints_cases)
      have "(of_int (2 * a + s) / of_int (2 * s) :: rat) = ?r + 1 / 2"
        using sr by (simp add: field_simps)
      then have "2 * ?r = of_int (2 * n - 1)" using n by simp
      then show False using False by (metis Ints_of_int)
    qed
    have a0: "a \<noteq> 0" using r0 by auto
    then have "1 \<le> \<bar>a\<bar>" by linarith
    then have "(of_int 1 :: rat) \<le> of_int \<bar>a\<bar>" by (simp only: of_int_le_iff)
    then have "(1::rat) \<le> \<bar>of_int a\<bar>" by simp
    then have "1 / of_int s \<le> \<bar>?r\<bar>"
      unfolding rabs using sr by (simp add: divide_right_mono)
    moreover have "(2::rat) powi (- 52) \<le> 1 / of_int s"
      using sr by (simp add: power_int_minus field_simps)
    ultimately have "(2::rat) powi (- 52) \<le> \<bar>?r\<bar>" by linarith
    then have "ilog2 (2 powi (- 52)) \<le> ilog2 \<bar>?r\<bar>"
      by (intro ilog2_mono) auto
    then have "- 52 \<le> ilog2 \<bar>?r\<bar>"
      by (simp only: ilog2_pow2)
    then have ex: "- 1074 < exponent ?r"
      unfolding exponent_def by linarith
    have "\<bar>rnd ?r - ?r\<bar> \<le> \<bar>?r\<bar> / 2 ^ 53"
      using r0 ex by (rule rnd_error)
    also have "\<dots> < (2 ^ 52 / of_int s) / 2 ^ 53"
      using r_lt by (simp add: divide_strict_right_mono)
    also have "\<dots> = d"
      by (simp add: d_def)
    finally have err: "\<bar>rnd ?r - ?r\<bar> < d" .
    have "\<bar>rnd ?r\<bar> \<le> \<bar>?r\<bar> + d"
      using err by (simp add: abs_if split: if_splits)
    then have "\<bar>rnd ?r\<bar> \<le> MAX_VALUE"
      using r_le ar d by (intro le_MAX_VALUE) simp
    then have fin: "fl ?r = Finite (rnd ?r)"
      by (simp add: fl_def overflow_Finite)
    from fraction_gap [OF s(1) rZ]
    have g1: "of_int \<lfloor>?r\<rfloor> + d \<le> ?r + 0" "?r + 0 \<le> of_int \<lfloor>?r\<rfloor> + 1 - d"
      using d by linarith+
    have w: "(of_int (2 * a + s) / of_int (2 * s) :: rat) = ?r + 1 / 2"
      using sr by (simp add: field_simps)
    have "0 < 2 * s" using s by simp
    from fraction_gap [OF this wZ]
    have g2: "of_int \<lfloor>?r + 1 / 2\<rfloor> + d \<le> ?r + 1 / 2"
      "?r + 1 / 2 \<le> of_int \<lfloor>?r + 1 / 2\<rfloor> + 1 - d"
      unfolding w by (simp_all add: d_def)
    have "\<lfloor>rnd ?r + 0\<rfloor> = \<lfloor>?r\<rfloor>" "\<lceil>rnd ?r + 0\<rceil> = \<lfloor>?r\<rfloor> + 1"
      using near_floor [OF err g1] by auto
    moreover have "\<lceil>?r\<rceil> = \<lfloor>?r\<rfloor> + 1"
      using not_Ints_floor [OF rZ] by (simp add: ceiling_altdef)
    moreover have "\<lfloor>rnd ?r + 1 / 2\<rfloor> = \<lfloor>?r + 1 / 2\<rfloor>"
      using near_floor(1) [OF err g2] .
    ultimately show ?thesis
      using fin by simp
  qed
qed


lemma quantize_first:
  fixes x :: int
  assumes x: "\<bar>x\<bar> < 2 ^ 52" and s: "0 < quantizeStep e" "quantizeStep e \<le> 2 ^ 52"
    and same: "\<And>y. \<lfloor>y\<rfloor> = \<lfloor>of_int x / of_int (quantizeStep e) :: rat\<rfloor> \<Longrightarrow>
                  \<lceil>y\<rceil> = \<lceil>of_int x / of_int (quantizeStep e) :: rat\<rceil> \<Longrightarrow>
                  \<lfloor>y + 1 / 2\<rfloor> = \<lfloor>of_int x / of_int (quantizeStep e) + 1 / 2 :: rat\<rfloor> \<Longrightarrow>
                  fn y = fn (of_int x / of_int (quantizeStep e))"
    and near: "\<bar>of_int (fn (of_int x / of_int (quantizeStep e))) - (of_int x / of_int (quantizeStep e) :: rat)\<bar> < 1"
  shows "quantizePosition e fn (Finite (of_int x))
           = Finite (of_int (fn (of_int x / of_int (quantizeStep e)) * quantizeStep e))
         \<and> \<bar>fn (of_int x / of_int (quantizeStep e)) * quantizeStep e\<bar> < 2 ^ 53"
proof -
  define st where "st = quantizeStep e"
  let ?r = "of_int x / of_int st :: rat"
  let ?k = "fn ?r"
  have st: "0 < st" "st \<le> 2 ^ 52" using s by (simp_all add: st_def)
  have S: "(0::rat) < of_int st" using st by simp
  from fl_quotient [OF x st] obtain y where y: "fl ?r = Finite y"
    and "\<lfloor>y\<rfloor> = \<lfloor>?r\<rfloor>" "\<lceil>y\<rceil> = \<lceil>?r\<rceil>" "\<lfloor>y + 1 / 2\<rfloor> = \<lfloor>?r + 1 / 2\<rfloor>"
    by blast
  then have k: "fn y = ?k"
    using same unfolding st_def by blast
  have "\<bar>of_int ?k - ?r\<bar> * of_int st < 1 * of_int st"
    using near S unfolding st_def by (intro mult_strict_right_mono) auto
  moreover have "\<bar>of_int ?k - ?r\<bar> * of_int st = \<bar>(of_int (?k * st) :: rat) - of_int x\<bar>"
  proof -
    have "(of_int ?k - ?r) * of_int st = (of_int (?k * st) :: rat) - of_int x"
      using S by (simp add: field_simps)
    then have "\<bar>(of_int ?k - ?r) * of_int st\<bar> = \<bar>(of_int (?k * st) :: rat) - of_int x\<bar>"
      by simp
    then show ?thesis using S by (simp add: abs_mult)
  qed
  ultimately have "\<bar>(of_int (?k * st - x) :: rat)\<bar> < of_int st" by simp
  then have "(of_int \<bar>?k * st - x\<bar> :: rat) < of_int st" by simp
  then have "\<bar>?k * st - x\<bar> < st" by (simp only: of_int_less_iff)
  then have "\<bar>?k * st\<bar> < 2 ^ 52 + 2 ^ 52"
    using x st by linarith
  then have bound: "\<bar>?k * st\<bar> < 2 ^ 53"
    by simp
  have "number_divide (Finite (of_int x)) (of_int st) = Finite y"
    using S y by (simp add: number_divide_def)
  then have "quantizePosition e fn (Finite (of_int x)) = fl (of_int ?k * of_int st)"
    by (simp add: quantizePosition_def st_def [symmetric] math_apply_def number_times_def k)
  also have "\<dots> = fl (of_int (?k * st))" by simp
  also have "\<dots> = Finite (of_int (?k * st))"
    using bound by (rule fl_of_int)
  finally show ?thesis using bound by (simp add: st_def)
qed

lemma quantize_second:
  fixes k :: int
  assumes b: "\<bar>k * quantizeStep e\<bar> < 2 ^ 53" and s: "0 < quantizeStep e"
    and fixed: "fn (of_int k) = k"
  shows "quantizePosition e fn (Finite (of_int (k * quantizeStep e)))
           = Finite (of_int (k * quantizeStep e))"
proof -
  define st where "st = quantizeStep e"
  have st: "0 < st" using s by (simp add: st_def)
  have b': "\<bar>k * st\<bar> < 2 ^ 53" using b by (simp add: st_def)
  have "\<bar>k\<bar> * 1 \<le> \<bar>k\<bar> * st" using st by (intro mult_left_mono) auto
  then have kb: "\<bar>k\<bar> < 2 ^ 53" using b' st by (simp add: abs_mult)
  have q: "(of_int (k * st) :: rat) / of_int st = of_int k" using st by simp
  have "number_divide (Finite (of_int (k * st))) (of_int st) = fl (of_int k)"
    using st by (simp add: number_divide_def q del: of_int_mult)
  also have "\<dots> = Finite (of_int k)" using kb by (rule fl_of_int)
  finally have "quantizePosition e fn (Finite (of_int (k * st))) = fl (of_int k * of_int st)"
    by (simp add: quantizePosition_def st_def [symmetric] math_apply_def number_times_def fixed
        del: of_int_mult)
  also have "\<dots> = fl (of_int (k * st))" by simp
  also have "\<dots> = Finite (of_int (k * st))" using b' by (rule fl_of_int)
  finally show ?thesis by (simp add: st_def)
qed

lemma quantize_bounded:
  fixes x :: int
  assumes x: "\<bar>x\<bar> < 2 ^ 52" and s: "0 < quantizeStep e" "quantizeStep e \<le> 2 ^ 52"
    and fn: "fn = Math_round \<or> fn = Math_floor \<or> fn = Math_ceil"
  shows "quantizePosition e fn (Finite (of_int x))
           = Finite (of_int (fn (of_int x / of_int (quantizeStep e)) * quantizeStep e))"
    and "quantizePosition e fn (quantizePosition e fn (Finite (of_int x)))
           = quantizePosition e fn (Finite (of_int x))"
proof -
  let ?r = "of_int x / of_int (quantizeStep e) :: rat"
  have same: "fn y = fn ?r"
    if "\<lfloor>y\<rfloor> = \<lfloor>?r\<rfloor>" "\<lceil>y\<rceil> = \<lceil>?r\<rceil>" "\<lfloor>y + 1 / 2\<rfloor> = \<lfloor>?r + 1 / 2\<rfloor>" for y
    using fn that by (auto simp: Math_round_def Math_floor_def Math_ceil_def)
  have near: "\<bar>of_int (fn ?r) - ?r\<bar> < 1"
    using fn by (auto simp: Math_round_def Math_floor_def Math_ceil_def abs_less_iff) linarith+
  have fixed: "fn (of_int k) = k" for k
  proof -
    have "\<lfloor>(of_int k :: rat) + 1 / 2\<rfloor> = k" by (intro floor_unique) auto
    then show ?thesis
      using fn by (auto simp: Math_round_def Math_floor_def Math_ceil_def)
  qed
  from quantize_first [of x e fn, OF x s same near]
  have 1: "quantizePosition e fn (Finite (of_int x)) = Finite (of_int (fn ?r * quantizeStep e))"
    and b: "\<bar>fn ?r * quantizeStep e\<bar> < 2 ^ 53"
    by blast+
  show "quantizePosition e fn (Finite (of_int x)) = Finite (of_int (fn ?r * quantizeStep e))"
    by (rule 1)
  show "quantizePosition e fn (quantizePosition e fn (Finite (of_int x)))
           = quantizePosition e fn (Finite (of_int x))"
    unfolding 1 using b s(1) fixed by (rule quantize_second)
qed


lemma round_half_even_near:
  assumes "of_int m - 1 / 2 < r" and "r < of_int m + 1 / 2"
  shows "round_half_even r = m"
proof -
  have "\<bar>of_int (round_half_even r) - r\<bar> \<le> 1 / 2" by (rule round_half_even_error)
  then have "\<bar>(of_int (round_half_even r - m) :: rat)\<bar> < 1"
    using assms by (simp add: abs_if split: if_splits)
  then have "(of_int \<bar>round_half_even r - m\<bar> :: rat) < of_int 1" by simp
  then have "\<bar>round_half_even r - m\<bar> < 1" by (simp only: of_int_less_iff)
  then show ?thesis by simp
qed

lemma round_half_even_tie:
  assumes "r = of_int m + 1 / 2"
  shows "round_half_even r = (if even m then m else m + 1)"
proof -
  have "\<lfloor>r\<rfloor> = m" unfolding assms by (intro floor_unique) auto
  then show ?thesis by (simp add: round_half_even_def Let_def assms)
qed

lemma fl_value:
  assumes "exponent x = e" and "round_half_even (x / 2 powi e) = m"
    and "\<bar>of_int m * 2 powi e :: rat\<bar> \<le> MAX_VALUE"
  shows "fl x = Finite (of_int m * 2 powi e)"
  using assms by (simp add: fl_def rnd_def overflow_Finite)

lemma fl_c1: "fl (9007199254740991 / 5) = Finite (7205759403792793 / 4)"
proof -
  have e: "exponent (9007199254740991 / 5) = - 2"
    by (rule exponent_eq) (simp_all add: power_int_minus)
  have r: "round_half_even ((9007199254740991 / 5) / 2 powi (- 2)) = 7205759403792793"
    by (rule round_half_even_near) (simp_all add: power_int_minus)
  have "fl (9007199254740991 / 5) = Finite (of_int 7205759403792793 * 2 powi (- 2))"
    using e r by (rule fl_value) (simp add: power_int_minus MAX_VALUE_def)
  then show ?thesis by (simp add: power_int_minus)
qed

lemma fl_c2: "fl 9007199254740995 = Finite 9007199254740996"
proof -
  have e: "exponent 9007199254740995 = 1"
    by (rule exponent_eq) simp_all
  have "round_half_even (9007199254740995 / 2 powi 1)
      = (if even (4503599627370497::int) then 4503599627370497 else 4503599627370497 + 1)"
    by (rule round_half_even_tie) simp
  then have r: "round_half_even (9007199254740995 / 2 powi 1) = 4503599627370498"
    by simp
  have "fl 9007199254740995 = Finite (of_int 4503599627370498 * 2 powi 1)"
    using e r by (rule fl_value) (simp add: MAX_VALUE_def)
  then show ?thesis by simp
qed

lemma fl_c3: "fl (9007199254740996 / 5) = Finite (7205759403792797 / 4)"
proof -
  have e: "exponent (9007199254740996 / 5) = - 2"
    by (rule exponent_eq) (simp_all add: power_int_minus)
  have r: "round_half_even ((9007199254740996 / 5) / 2 powi (- 2)) = 7205759403792797"
    by (rule round_half_even_near) (simp_all add: power_int_minus)
  have "fl (9007199254740996 / 5) = Finite (of_int 7205759403792797 * 2 powi (- 2))"
    using e r by (rule fl_value) (simp add: power_int_minus MAX_VALUE_def)
  then show ?thesis by (simp add: power_int_minus)
qed

lemma fl_c4: "fl 9007199254741000 = Finite 9007199254741000"
proof -
  have "fl (of_int 4503599627370500 * 2 powi 1) = Finite (of_int 4503599627370500 * 2 powi 1)"
    by (rule fl_exact [where m = 4503599627370500 and e = 1]) (simp_all add: MAX_VALUE_def)
  then show ?thesis by simp
qed

lemma ceil_c: "\<lceil>7205759403792793 / 4 :: rat\<rceil> = 1801439850948199"
  "\<lceil>7205759403792797 / 4 :: rat\<rceil> = 1801439850948200"
  by (simp_all add: ceiling_eq_iff)





lemma number_le_refl: "x \<noteq> NaN \<Longrightarrow> number_le x x"
  by (cases x) (simp_all add: number_le_def)











lemma rnd_of_int_Ints: "rnd (of_int n) \<in> \<int>"
proof (cases "0 \<le> exponent (of_int n)")
  case True
  then have "(2::rat) powi exponent (of_int n) = of_int (2 ^ nat (exponent (of_int n)))"
    by (simp add: power_int_def)
  then show ?thesis
    unfolding rnd_def by (metis Ints_of_int Ints_mult)
next
  case False
  define k where "k = nat (- exponent (of_int n))"
  have "exponent (of_int n) = - int k" using False by (simp add: k_def)
  then have "(2::rat) powi exponent (of_int n) = inverse (2 powi int k)"
    by (simp only: power_int_minus)
  then have p: "(2::rat) powi exponent (of_int n) = 1 / 2 ^ k"
    by (simp add: field_simps)
  have "(of_int n :: rat) / (1 / 2 ^ k) = of_int (n * 2 ^ k)" by simp
  then have "round_half_even (of_int n / (1 / 2 ^ k)) = n * 2 ^ k"
    by (simp only: round_half_even_of_int)
  then have "rnd (of_int n) = of_int n"
    by (simp add: rnd_def p)
  then show ?thesis by simp
qed

lemma quantizePosition_Ints:
  assumes "quantizePosition e fn x = Finite y"
  shows "y \<in> \<int>"
proof -
  let ?s = "quantizeStep e"
  obtain k where k: "math_apply fn (number_divide x (of_int ?s)) = Finite (of_int k)"
    using assms
    by (cases "number_divide x (of_int ?s)")
      (auto simp: quantizePosition_def math_apply_def number_times_def split: if_splits)
  then have "fl (of_int (k * ?s)) = Finite y"
    using assms by (simp add: quantizePosition_def number_times_def)
  then have "y = rnd (of_int (k * ?s))"
    by (auto simp: fl_def overflow_def split: if_splits)
  then show ?thesis
    by (simp only: rnd_of_int_Ints)
qed

section \<open>Quantization: results\<close>

text \<open>
  C9. Quantization is idempotent on integers below \<open>2 ^ 52\<close> in magnitude: for every
  integer \<open>x\<close> with \<open>|x| < 2 ^ 52\<close>, every quantize step from 1 to \<open>2 ^ 52\<close> and
  each of the three rounding functions, quantizing the quantized value gives the
  quantized value again. (Beyond that the rounding of the doubles shows: with step
  5 and \<open>Math.ceil\<close>, \<open>2 ^ 53 - 1\<close> goes to 9007199254740996 and that to
  9007199254741000.)
\<close>

theorem quantizePosition_idempotent_bounded:
  "0 < quantizeStep e \<Longrightarrow> quantizeStep e \<le> 2 ^ 52 \<Longrightarrow> \<bar>x\<bar> < 2 ^ 52 \<Longrightarrow>
     quantizePosition e Math_round (quantizePosition e Math_round (Finite (of_int x)))
       = quantizePosition e Math_round (Finite (of_int x))
   \<and> quantizePosition e Math_floor (quantizePosition e Math_floor (Finite (of_int x)))
       = quantizePosition e Math_floor (Finite (of_int x))
   \<and> quantizePosition e Math_ceil (quantizePosition e Math_ceil (Finite (of_int x)))
       = quantizePosition e Math_ceil (Finite (of_int x))"
  using quantize_bounded(2) [of x e Math_round] quantize_bounded(2) [of x e Math_floor]
    quantize_bounded(2) [of x e Math_ceil]
  by simp

theorem quantizePosition_idempotent_bounded_witness:
  "0 < quantizeStep example_editor \<and> quantizeStep example_editor \<le> 2 ^ 52
   \<and> \<bar>3::int\<bar> < 2 ^ 52
   \<and> quantizePosition example_editor Math_round (Finite (of_int 3)) = Finite 4
   \<and> quantizePosition example_editor Math_round
        (quantizePosition example_editor Math_round (Finite (of_int 3))) = Finite 4
   \<and> quantizePosition example_editor Math_floor (Finite (of_int 3)) = Finite 2
   \<and> quantizePosition example_editor Math_floor
        (quantizePosition example_editor Math_floor (Finite (of_int 3))) = Finite 2
   \<and> quantizePosition example_editor Math_ceil (Finite (of_int 3)) = Finite 4
   \<and> quantizePosition example_editor Math_ceil
        (quantizePosition example_editor Math_ceil (Finite (of_int 3))) = Finite 4"
proof -
  have s: "0 < quantizeStep example_editor" "quantizeStep example_editor \<le> 2 ^ 52"
    by (simp_all add: example_editor_def)
  have x: "\<bar>3::int\<bar> < 2 ^ 52" by simp
  have step: "quantizeStep example_editor = 2" by (simp add: example_editor_def)
  have r: "quantizePosition example_editor Math_round (Finite (of_int 3)) = Finite 4"
    using quantize_bounded(1) [OF x s, of Math_round]
    by (simp add: step Math_round_def)
  have f: "quantizePosition example_editor Math_floor (Finite (of_int 3)) = Finite 2"
    using quantize_bounded(1) [OF x s, of Math_floor]
    by (simp add: step Math_floor_def floor_eq_iff)
  have c: "quantizePosition example_editor Math_ceil (Finite (of_int 3)) = Finite 4"
    using quantize_bounded(1) [OF x s, of Math_ceil]
    by (simp add: step Math_ceil_def ceiling_eq_iff)
  show ?thesis
    using quantizePosition_idempotent_bounded [OF s x] s x r f c by simp
qed

theorem quantizePosition_idempotent_counterexample:
  "quantizePosition step_five_editor Math_ceil (Finite (of_int 9007199254740991))
     = Finite 9007199254740996
   \<and> quantizePosition step_five_editor Math_ceil
        (quantizePosition step_five_editor Math_ceil (Finite (of_int 9007199254740991)))
       = Finite 9007199254741000
   \<and> quantizePosition step_five_editor Math_ceil
        (quantizePosition step_five_editor Math_ceil (Finite (of_int 9007199254740991)))
       \<noteq> quantizePosition step_five_editor Math_ceil (Finite (of_int 9007199254740991))"
proof -
  have step: "quantizeStep step_five_editor = 5"
    by (simp add: step_five_editor_def example_editor_def)
  have 1: "quantizePosition step_five_editor Math_ceil (Finite 9007199254740991)
      = Finite 9007199254740996"
    by (simp add: quantizePosition_def step number_divide_def fl_c1 math_apply_def
        Math_ceil_def ceil_c number_times_def fl_c2)
  have 2: "quantizePosition step_five_editor Math_ceil (Finite 9007199254740996)
      = Finite 9007199254741000"
    by (simp add: quantizePosition_def step number_divide_def fl_c3 math_apply_def
        Math_ceil_def ceil_c number_times_def fl_c4)
  show ?thesis by (simp add: 1 2)
qed

section \<open>Removing a note\<close>

lemma removeNote_no_result: "removeNote e n = Some e' \<Longrightarrow> False"
proof (rule removeNote.raw_induct [where P = "\<lambda>_ _ _. False" and e = e and y = e'])
  fix f :: "editor \<Rightarrow> nat \<Rightarrow> editor option" and a b c
  assume "\<And>x y z. f x y = Some z \<Longrightarrow> False" and "f a b = Some c"
  then show False by blast
qed

text \<open>
  C2. The public \<open>removeNote\<close> calls itself and nothing else, so for every editor and
  every note it never returns: it deletes nothing and yields no state. (The internal
  \<open>_removeNote\<close> is the one that deletes the key.)
\<close>

theorem removeNote_never_returns: "removeNote e n = None"
  using removeNote_no_result [of e n] by (cases "removeNote e n") auto

lemma removeNote_internal_deletes:
  "set (notesMap (removeNote_internal e n)) = set (notesMap e) - {n}
   \<and> heap (removeNote_internal e n) = heap e"
  by (simp add: removeNote_internal_def)

section \<open>Drag conflicts: results\<close>

lemma endNoteDrag_fold:
  "heap (fold (endNoteDragStep x) ys e) = heap e
   \<and> tempNotesMap (fold (endNoteDragStep x) ys e) = tempNotesMap e
   \<and> notesMap (fold (endNoteDragStep x) ys e) =
       (if \<exists>y \<in> set ys. y \<noteq> x \<and> position (heap e y) = position (heap e x)
                           \<and> pitch (heap e y) = pitch (heap e x)
        then removeAll x (notesMap e) else notesMap e)"
proof (induction ys arbitrary: e)
  case Nil
  show ?case by simp
next
  case (Cons y ys)
  let ?e1 = "endNoteDragStep x y e"
  have h: "heap ?e1 = heap e" and t: "tempNotesMap ?e1 = tempNotesMap e"
    by (simp_all add: endNoteDragStep_def)
  have n: "notesMap ?e1 =
      (if y \<noteq> x \<and> position (heap e y) = position (heap e x)
            \<and> pitch (heap e y) = pitch (heap e x)
       then removeAll x (notesMap e) else notesMap e)"
    by (simp add: endNoteDragStep_def)
  show ?case
    using Cons.IH [of ?e1] by (auto simp: h t n)
qed

text \<open>
  C1. When another note \<open>y\<close> of the store sits on the pitch and position of the
  dragged note \<open>x\<close>, \<open>endNoteDrag(x)\<close> deletes the key of \<open>x\<close> itself from the
  persistent set and nothing else: the dragged note is gone and \<open>y\<close> stays, the
  opposite of what is claimed. With notes 1 and 2 on the same cell, \<open>endNoteDrag(1)\<close>
  leaves the persistent set with note 2 only.
\<close>

theorem endNoteDrag_deletes_dragged:
  "y \<in> set (allNotes e) \<Longrightarrow> y \<noteq> x \<Longrightarrow>
   pitch (heap e y) = pitch (heap e x) \<Longrightarrow> position (heap e y) = position (heap e x) \<Longrightarrow>
     notesMap (endNoteDrag e x) = removeAll x (notesMap e)
     \<and> tempNotesMap (endNoteDrag e x) = tempNotesMap e
     \<and> heap (endNoteDrag e x) = heap e"
  unfolding endNoteDrag_def using endNoteDrag_fold [of x "allNotes e" e] by auto

theorem endNoteDrag_deletes_dragged_witness:
  "2 \<in> set (allNotes (example_editor\<lparr>notesMap := [1, 2]\<rparr>))
   \<and> (2::nat) \<noteq> 1
   \<and> pitch (heap (example_editor\<lparr>notesMap := [1, 2]\<rparr>) 2)
       = pitch (heap (example_editor\<lparr>notesMap := [1, 2]\<rparr>) 1)
   \<and> position (heap (example_editor\<lparr>notesMap := [1, 2]\<rparr>) 2)
       = position (heap (example_editor\<lparr>notesMap := [1, 2]\<rparr>) 1)
   \<and> notesMap (endNoteDrag (example_editor\<lparr>notesMap := [1, 2]\<rparr>) 1) = [2]"
  using endNoteDrag_deletes_dragged [of 2 "example_editor\<lparr>notesMap := [1, 2]\<rparr>" 1]
  by (simp add: example_editor_def allNotes_def tempNotes_def)

section \<open>Playing notes: results\<close>

text \<open>
  C3. When no note of the store (persistent or temp) is on the given pitch and
  position, \<open>setNotePlaying\<close> does not complete silently: the unguarded \<open>note.id\<close>
  throws a \<open>TypeError\<close> before the playhead loop is reached.
\<close>

theorem setNotePlaying_miss_throws:
  "\<forall>n \<in> set (allNotes e). \<not> (pitch (heap e n) = p \<and> position (heap e n) = q) \<Longrightarrow>
     setNotePlaying e p q = Inl TypeError"
proof -
  assume "\<forall>n \<in> set (allNotes e). \<not> (pitch (heap e n) = p \<and> position (heap e n) = q)"
  then have "getNoteByPitchPosition e p q = None"
    by (simp add: getNoteByPitchPosition_def find_None_iff)
  then show ?thesis
    by (simp add: setNotePlaying_def)
qed

theorem setNotePlaying_miss_throws_witness:
  "allNotes one_note_editor = [1]
   \<and> \<not> (pitch (heap one_note_editor 1) = 61 \<and> position (heap one_note_editor 1) = 0)
   \<and> setNotePlaying one_note_editor 61 0 = Inl TypeError"
  using setNotePlaying_miss_throws [of one_note_editor 61 0]
  by (simp add: one_note_editor_def example_editor_def allNotes_def tempNotes_def
      example_note_def)

text \<open>When the lookup finds a note, the call returns a state in which that note plays
  or has already been passed by the playhead.\<close>

lemma setNotePlaying_hit:
  "getNoteByPitchPosition e p q = Some n \<Longrightarrow> \<exists>e'. setNotePlaying e p q = Inr e'"
  by (simp add: setNotePlaying_def Let_def)

lemma setNotePlaying_hit_example:
  "map_sum id currentlyPlayingNotes (setNotePlaying one_note_editor 60 0) = Inr [1]"
  by (simp add: setNotePlaying_def Let_def getNoteByPitchPosition_def one_note_editor_def
      example_editor_def example_note_def allNotes_def tempNotes_def setCurrentlyPlaying_def
      clearPassed_def)

section \<open>Trimming overlapping notes: results\<close>

lemma end_n_moveStart: "end_n (moveStart x n) = end_n n"
  by (simp add: moveStart_def end_n_def)

lemma moveStart_twice: "moveStart x (moveStart x n) = moveStart x n"
  by (simp add: moveStart_def end_n_def)

lemma moveStart_fields:
  "voice (moveStart x n) = voice n \<and> pitch (moveStart x n) = pitch n
   \<and> start (moveStart x n) = x"
  by (simp add: moveStart_def start_def)

lemma intersects_iff:
  "intersects a b \<longleftrightarrow>
     start a < end_n b \<and> start b < end_n a \<and> start a < end_n a \<and> start b < end_n b"
  by (auto simp: intersects_def)

lemma intersects_overlaps:
  assumes "intersects a b" and "lo \<le> pitch a" and "pitch a \<le> hi"
  shows "overlaps a (start b, end_n b) (lo, hi)"
  using assms by (auto simp: intersects_iff overlaps_def Let_def start_def end_n_def)

lemma trim_fold:
  assumes "x \<notin> set xs"
  shows "heap (fold (trimStep x) xs e)
           = (\<lambda>k. if k \<in> set xs \<and> end_n (heap e k) > end_n (heap e x)
                   then moveStart (end_n (heap e x)) (heap e k) else heap e k)
         \<and> notesMap (fold (trimStep x) xs e)
           = filter (\<lambda>k. \<not> (k \<in> set xs \<and> end_n (heap e k) \<le> end_n (heap e x))) (notesMap e)
         \<and> tempNotesMap (fold (trimStep x) xs e) = tempNotesMap e"
  using assms
proof (induction xs arbitrary: e)
  case Nil
  show ?case by simp
next
  case (Cons y xs)
  then have yx: "y \<noteq> x" and xs: "x \<notin> set xs" by auto
  let ?e1 = "trimStep x y e"
  let ?E = "end_n (heap e x)"
  show ?case
  proof (cases "end_n (heap e y) > ?E")
    case True
    then have h: "heap ?e1 = (heap e)(y := moveStart ?E (heap e y))"
      and n: "notesMap ?e1 = notesMap e" and t: "tempNotesMap ?e1 = tempNotesMap e"
      by (simp_all add: trimStep_def)
    have ends: "end_n (heap ?e1 k) = end_n (heap e k)" for k
      by (simp add: h end_n_moveStart)
    have hx: "heap ?e1 x = heap e x"
      using yx by (simp add: h)
    have IH: "heap (fold (trimStep x) xs ?e1)
          = (\<lambda>k. if k \<in> set xs \<and> end_n (heap e k) > ?E
                  then moveStart ?E (heap ?e1 k) else heap ?e1 k)"
      "notesMap (fold (trimStep x) xs ?e1)
          = filter (\<lambda>k. \<not> (k \<in> set xs \<and> end_n (heap e k) \<le> ?E)) (notesMap e)"
      "tempNotesMap (fold (trimStep x) xs ?e1) = tempNotesMap e"
      using Cons.IH [OF xs, of ?e1] by (simp_all only: ends hx n t)
    have 1: "heap (fold (trimStep x) (y # xs) e)
          = (\<lambda>k. if k \<in> set (y # xs) \<and> end_n (heap e k) > ?E
                  then moveStart ?E (heap e k) else heap e k)"
      using True by (auto simp: IH(1) h moveStart_twice fun_eq_iff)
    have 2: "notesMap (fold (trimStep x) (y # xs) e)
          = filter (\<lambda>k. \<not> (k \<in> set (y # xs) \<and> end_n (heap e k) \<le> ?E)) (notesMap e)"
      using True by (auto simp: IH(2) intro!: filter_cong)
    show ?thesis
      using 1 2 IH(3) by simp
  next
    case False
    then have h: "heap ?e1 = heap e"
      and n: "notesMap ?e1 = removeAll y (notesMap e)" and t: "tempNotesMap ?e1 = tempNotesMap e"
      by (simp_all add: trimStep_def removeNote_internal_def)
    have IH: "heap (fold (trimStep x) xs ?e1)
          = (\<lambda>k. if k \<in> set xs \<and> end_n (heap e k) > ?E
                  then moveStart ?E (heap e k) else heap e k)"
      "notesMap (fold (trimStep x) xs ?e1)
          = filter (\<lambda>k. \<not> (k \<in> set xs \<and> end_n (heap e k) \<le> ?E)) (removeAll y (notesMap e))"
      "tempNotesMap (fold (trimStep x) xs ?e1) = tempNotesMap e"
      using Cons.IH [OF xs, of ?e1] by (simp_all only: h n t)
    have 1: "heap (fold (trimStep x) (y # xs) e)
          = (\<lambda>k. if k \<in> set (y # xs) \<and> end_n (heap e k) > ?E
                  then moveStart ?E (heap e k) else heap e k)"
      using False by (auto simp: IH(1) fun_eq_iff)
    have 2: "notesMap (fold (trimStep x) (y # xs) e)
          = filter (\<lambda>k. \<not> (k \<in> set (y # xs) \<and> end_n (heap e k) \<le> ?E)) (notesMap e)"
      using False by (auto simp: IH(2) removeAll_filter_not_eq intro!: filter_cong)
    show ?thesis
      using 1 2 IH(3) by simp
  qed
qed

lemma trim_result:
  "heap (trimOverlappingVoices c e x)
     = (\<lambda>k. if trimmed c e x k \<and> end_n (heap e k) > end_n (heap e x)
             then moveStart (end_n (heap e x)) (heap e k) else heap e k)
   \<and> notesMap (trimOverlappingVoices c e x)
     = filter (\<lambda>k. \<not> (trimmed c e x k \<and> end_n (heap e k) \<le> end_n (heap e x))) (notesMap e)
   \<and> tempNotesMap (trimOverlappingVoices c e x) = tempNotesMap e"
proof -
  let ?xs = "filter (\<lambda>otherNote. otherNote \<noteq> x
                      \<and> voice (heap e otherNote) = voice (heap e x)
                      \<and> overlaps (heap e otherNote) (start (heap e x), end_n (heap e x))
                           (MIN_PITCH c, MAX_PITCH c)) (allNotes e)"
  have x: "x \<notin> set ?xs" by simp
  have m: "k \<in> set ?xs \<longleftrightarrow> trimmed c e x k" for k
    by (auto simp: trimmed_def)
  have t: "trimOverlappingVoices c e x = fold (trimStep x) ?xs e"
    by (simp add: trimOverlappingVoices_def Let_def)
  show ?thesis
    unfolding t using trim_fold [OF x, of e] by (simp only: m)
qed

lemma not_intersects_moveStart: "\<not> intersects (moveStart (end_n b) a) b"
  by (simp add: intersects_iff moveStart_fields)

text \<open>
  C4. After \<open>trimOverlappingVoices(note)\<close> no other note of the persistent set in the
  voice of \<open>note\<close>, with its pitch within the pitch bounds, intersects
  \<open>[note.start, note.end)\<close>. Every other note of the store in that voice and pitch
  range whose interval intersected it has been truncated with
  \<open>moveStart(note.end)\<close> when its end lies beyond \<open>note.end\<close>, and is otherwise no
  longer in the persistent set. The note itself and the temp collection are left
  as they were: a temp note that ends by \<open>note.end\<close> stays, since the deletion
  only removes from the persistent set.
\<close>

theorem trimOverlappingVoices_persistent_monophony:
  "(\<forall>k \<in> set (notesMap (trimOverlappingVoices c e x)).
      k \<noteq> x \<and> voice (heap (trimOverlappingVoices c e x) k)
                = voice (heap (trimOverlappingVoices c e x) x)
      \<and> MIN_PITCH c \<le> pitch (heap (trimOverlappingVoices c e x) k)
      \<and> pitch (heap (trimOverlappingVoices c e x) k) \<le> MAX_PITCH c
      \<longrightarrow> \<not> intersects (heap (trimOverlappingVoices c e x) k)
                         (heap (trimOverlappingVoices c e x) x))
   \<and> (\<forall>k \<in> set (allNotes e).
        k \<noteq> x \<and> voice (heap e k) = voice (heap e x)
        \<and> MIN_PITCH c \<le> pitch (heap e k) \<and> pitch (heap e k) \<le> MAX_PITCH c
        \<and> intersects (heap e k) (heap e x)
        \<longrightarrow> (if end_n (heap e k) > end_n (heap e x)
             then heap (trimOverlappingVoices c e x) k
                    = moveStart (end_n (heap e x)) (heap e k)
                  \<and> (k \<in> set (notesMap (trimOverlappingVoices c e x))
                       \<longleftrightarrow> k \<in> set (notesMap e))
             else k \<notin> set (notesMap (trimOverlappingVoices c e x))
                  \<and> heap (trimOverlappingVoices c e x) k = heap e k))
   \<and> heap (trimOverlappingVoices c e x) x = heap e x
   \<and> tempNotesMap (trimOverlappingVoices c e x) = tempNotesMap e"
proof -
  let ?e' = "trimOverlappingVoices c e x"
  let ?E = "end_n (heap e x)"
  note r = trim_result [of c e x]
  have hx: "heap ?e' x = heap e x"
    using r by (simp add: trimmed_def)
  have tr: "trimmed c e x k"
    if "k \<in> set (allNotes e)" "k \<noteq> x" "voice (heap e k) = voice (heap e x)"
      "MIN_PITCH c \<le> pitch (heap e k)" "pitch (heap e k) \<le> MAX_PITCH c"
      "intersects (heap e k) (heap e x)" for k
    using that by (simp add: trimmed_def intersects_overlaps)
  have part2: "if end_n (heap e k) > ?E
      then heap ?e' k = moveStart ?E (heap e k)
           \<and> (k \<in> set (notesMap ?e') \<longleftrightarrow> k \<in> set (notesMap e))
      else k \<notin> set (notesMap ?e') \<and> heap ?e' k = heap e k"
    if "trimmed c e x k" for k
    using that r by auto
  have part1: "\<not> intersects (heap ?e' k) (heap ?e' x)"
    if k: "k \<in> set (notesMap ?e')" "k \<noteq> x" "voice (heap ?e' k) = voice (heap ?e' x)"
      "MIN_PITCH c \<le> pitch (heap ?e' k)" "pitch (heap ?e' k) \<le> MAX_PITCH c" for k
  proof (cases "trimmed c e x k")
    case True
    then have "end_n (heap e k) > ?E"
      using k(1) r by auto
    then have "heap ?e' k = moveStart ?E (heap e k)"
      using True r by simp
    then show ?thesis
      by (simp add: hx not_intersects_moveStart)
  next
    case False
    then have same: "heap ?e' k = heap e k"
      using r by simp
    have "k \<in> set (allNotes e)"
      using k(1) r by (simp add: allNotes_def)
    then show ?thesis
      using False tr [of k] k(2-5) by (auto simp: same hx)
  qed
  show ?thesis
    using part1 part2 tr hx r by blast
qed

lemma three_note_trim:
  "notesMap (trimOverlappingVoices example_constants three_note_editor 1) = [1, 3]"
  "heap (trimOverlappingVoices example_constants three_note_editor 1) 1
     = example_note\<lparr>duration := 8\<rparr>"
  "heap (trimOverlappingVoices example_constants three_note_editor 1) 3
     = example_note\<lparr>position := 8, duration := 2\<rparr>"
  by (simp_all add: trimOverlappingVoices_def Let_def three_note_editor_def example_editor_def
      example_note_def example_constants_def allNotes_def tempNotes_def overlaps_def
      start_def end_n_def trimStep_def removeNote_internal_def moveStart_def SOPRANO_def)

lemma temp_note_trim:
  "notesMap (trimOverlappingVoices example_constants temp_note_editor 1) = [1]"
  "tempNotesMap (trimOverlappingVoices example_constants temp_note_editor 1) = [2]"
  "heap (trimOverlappingVoices example_constants temp_note_editor 1) 1
     = example_note\<lparr>duration := 8\<rparr>"
  "heap (trimOverlappingVoices example_constants temp_note_editor 1) 2
     = example_note\<lparr>position := 4\<rparr>"
  by (simp_all add: trimOverlappingVoices_def Let_def temp_note_editor_def example_editor_def
      example_note_def example_constants_def allNotes_def tempNotes_def overlaps_def
      start_def end_n_def trimStep_def removeNote_internal_def moveStart_def SOPRANO_def)

theorem trimOverlappingVoices_persistent_monophony_witness:
  "3 \<in> set (notesMap (trimOverlappingVoices example_constants three_note_editor 1))
   \<and> (3::nat) \<noteq> 1
   \<and> voice (heap (trimOverlappingVoices example_constants three_note_editor 1) 3)
       = voice (heap (trimOverlappingVoices example_constants three_note_editor 1) 1)
   \<and> MIN_PITCH example_constants
       \<le> pitch (heap (trimOverlappingVoices example_constants three_note_editor 1) 3)
   \<and> pitch (heap (trimOverlappingVoices example_constants three_note_editor 1) 3)
       \<le> MAX_PITCH example_constants
   \<and> \<not> intersects (heap (trimOverlappingVoices example_constants three_note_editor 1) 3)
         (heap (trimOverlappingVoices example_constants three_note_editor 1) 1)
   \<and> 2 \<in> set (allNotes three_note_editor) \<and> (2::nat) \<noteq> 1
   \<and> voice (heap three_note_editor 2) = voice (heap three_note_editor 1)
   \<and> MIN_PITCH example_constants \<le> pitch (heap three_note_editor 2)
   \<and> pitch (heap three_note_editor 2) \<le> MAX_PITCH example_constants
   \<and> intersects (heap three_note_editor 2) (heap three_note_editor 1)
   \<and> \<not> end_n (heap three_note_editor 2) > end_n (heap three_note_editor 1)
   \<and> 2 \<notin> set (notesMap (trimOverlappingVoices example_constants three_note_editor 1))
   \<and> 3 \<in> set (allNotes three_note_editor)
   \<and> voice (heap three_note_editor 3) = voice (heap three_note_editor 1)
   \<and> MIN_PITCH example_constants \<le> pitch (heap three_note_editor 3)
   \<and> pitch (heap three_note_editor 3) \<le> MAX_PITCH example_constants
   \<and> intersects (heap three_note_editor 3) (heap three_note_editor 1)
   \<and> end_n (heap three_note_editor 3) > end_n (heap three_note_editor 1)
   \<and> heap (trimOverlappingVoices example_constants three_note_editor 1) 3
       = moveStart (end_n (heap three_note_editor 1)) (heap three_note_editor 3)"
proof -
  let ?c = example_constants and ?E = three_note_editor
  let ?E' = "trimOverlappingVoices ?c ?E 1"
  have post: "3 \<in> set (notesMap ?E')" "voice (heap ?E' 3) = voice (heap ?E' 1)"
    "MIN_PITCH ?c \<le> pitch (heap ?E' 3)" "pitch (heap ?E' 3) \<le> MAX_PITCH ?c"
    by (simp_all only: three_note_trim) (simp_all add: example_note_def example_constants_def)
  have store: "allNotes ?E = [1, 2, 3]"
    "heap ?E 1 = example_note\<lparr>duration := 8\<rparr>"
    "heap ?E 2 = example_note\<lparr>position := 4\<rparr>"
    "heap ?E 3 = example_note\<lparr>position := 6\<rparr>"
    by (simp_all add: three_note_editor_def example_editor_def allNotes_def tempNotes_def)
  have pre2: "2 \<in> set (allNotes ?E)" "voice (heap ?E 2) = voice (heap ?E 1)"
    "MIN_PITCH ?c \<le> pitch (heap ?E 2)" "pitch (heap ?E 2) \<le> MAX_PITCH ?c"
    "intersects (heap ?E 2) (heap ?E 1)" "\<not> end_n (heap ?E 2) > end_n (heap ?E 1)"
    by (simp_all only: store)
      (simp_all add: example_note_def example_constants_def intersects_iff start_def end_n_def)
  have pre3: "3 \<in> set (allNotes ?E)" "voice (heap ?E 3) = voice (heap ?E 1)"
    "MIN_PITCH ?c \<le> pitch (heap ?E 3)" "pitch (heap ?E 3) \<le> MAX_PITCH ?c"
    "intersects (heap ?E 3) (heap ?E 1)" "end_n (heap ?E 3) > end_n (heap ?E 1)"
    by (simp_all only: store)
      (simp_all add: example_note_def example_constants_def intersects_iff start_def end_n_def)
  note T = trimOverlappingVoices_persistent_monophony [of ?c ?E 1]
  have c1: "\<not> intersects (heap ?E' 3) (heap ?E' 1)"
    using T post by auto
  have c2: "2 \<notin> set (notesMap ?E')"
    using T pre2 by auto
  have c3: "heap ?E' 3 = moveStart (end_n (heap ?E 1)) (heap ?E 3)"
    using T pre3 by auto
  show ?thesis
    using post pre2 pre3 c1 c2 c3 by simp
qed

theorem trimOverlappingVoices_temp_counterexample:
  "allNotes (trimOverlappingVoices example_constants temp_note_editor 1) = [1, 2]
   \<and> (2::nat) \<noteq> 1
   \<and> voice (heap (trimOverlappingVoices example_constants temp_note_editor 1) 2)
       = voice (heap (trimOverlappingVoices example_constants temp_note_editor 1) 1)
   \<and> intersects (heap (trimOverlappingVoices example_constants temp_note_editor 1) 2)
       (heap (trimOverlappingVoices example_constants temp_note_editor 1) 1)"
  by (simp only: allNotes_def tempNotes_def temp_note_trim)
    (simp add: intersects_iff start_def end_n_def example_note_def)

section \<open>Generation masks: results\<close>

lemma example_store:
  "allNotes one_note_editor = [1]"
  "heap one_note_editor k = example_note"
  "generationMasks one_note_editor = [[], [], [], []]"
  "totalSixteenths one_note_editor = 32"
  "quantizeStep one_note_editor = 2"
  by (simp_all add: one_note_editor_def example_editor_def allNotes_def tempNotes_def)


lemma set_fold_set_add: "set (fold set_add xs s) = set s \<union> set xs"
  by (induction xs arbitrary: s) (auto simp: set_add_def)

lemma distinct_fold_set_add: "distinct s \<Longrightarrow> distinct (fold set_add xs s)"
  by (induction xs arbitrary: s) (auto simp: set_add_def)

lemma set_fold_set_delete: "set (fold set_delete xs s) = set s - set xs"
  by (induction xs arbitrary: s) (auto simp: set_delete_def)

lemma distinct_fold_set_delete: "distinct s \<Longrightarrow> distinct (fold set_delete xs s)"
  by (induction xs arbitrary: s) (auto simp: set_delete_def distinct_removeAll)

lemma set_new_Set: "set (new_Set xs) = set xs"
  by (simp add: new_Set_def set_fold_set_add)

lemma distinct_new_Set: "distinct (new_Set xs)"
  by (simp add: new_Set_def distinct_fold_set_add)

lemma sort_distinct: "distinct xs \<Longrightarrow> sort xs = sorted_list_of_set (set xs)"
  by (simp add: sorted_list_of_set_sort_remdups distinct_remdups_id)

lemma array_get_set_same: "array_get (array_set xs i v) i = v"
  by (simp add: array_get_def array_set_def nth_append)

lemma array_get_set_other: "j \<noteq> i \<Longrightarrow> array_get (array_set xs i v) j = array_get xs j"
  by (auto simp: array_get_def array_set_def nth_append)



lemma addMask_voice:
  "array_get (generationMasks (addMask e v m)) v
     = sorted_list_of_set (set (array_get (generationMasks e) v) \<union> set m)"
  by (simp add: addMask_def Let_def array_get_set_same sort_distinct
      distinct_fold_set_add distinct_new_Set set_fold_set_add set_new_Set)

lemma removeMask_voice:
  "array_get (generationMasks (removeMask e v m)) v
     = sorted_list_of_set (set (array_get (generationMasks e) v) - set m)"
  by (simp add: removeMask_def Let_def array_get_set_same sort_distinct
      distinct_fold_set_delete distinct_new_Set set_fold_set_delete set_new_Set)

lemma addMask_other:
  "u \<noteq> v \<Longrightarrow> array_get (generationMasks (addMask e v m)) u = array_get (generationMasks e) u"
  by (simp add: addMask_def Let_def array_get_set_other)

lemma removeMask_other:
  "u \<noteq> v \<Longrightarrow> array_get (generationMasks (removeMask e v m)) u = array_get (generationMasks e) u"
  by (simp add: removeMask_def Let_def array_get_set_other)

lemma addMask_frame:
  "heap (addMask e v m) = heap e \<and> notesMap (addMask e v m) = notesMap e
   \<and> tempNotesMap (addMask e v m) = tempNotesMap e
   \<and> totalSixteenths (addMask e v m) = totalSixteenths e
   \<and> quantizeStep (addMask e v m) = quantizeStep e
   \<and> currentlyPlayingNotes (addMask e v m) = currentlyPlayingNotes e"
  by (simp add: addMask_def Let_def)









lemma set_range_lodash:
  "set (range_lodash a b) = (if a < b then {a..<b} else {b<..a})"
proof (cases "a < b")
  case True
  then show ?thesis by (auto simp: range_lodash_def)
next
  case False
  have "(\<lambda>k. a - int k) ` {0..<nat (a - b)} = {b<..a}"
  proof (intro equalityI subsetI)
    fix i assume "i \<in> (\<lambda>k. a - int k) ` {0..<nat (a - b)}"
    then show "i \<in> {b<..a}" by auto
  next
    fix i assume i: "i \<in> {b<..a}"
    then have "i = a - int (nat (a - i))" and "nat (a - i) \<in> {0..<nat (a - b)}" by auto
    then show "i \<in> (\<lambda>k. a - int k) ` {0..<nat (a - b)}" by (rule image_eqI)
  qed
  with False show ?thesis by (simp add: range_lodash_def)
qed


lemma maskStep_eq:
  "maskStep pr n e = addMask e (voice (heap e n))
     (range_lodash (max (fst pr) (start (heap e n))) (min (snd pr) (end_n (heap e n))))"
  by (simp add: maskStep_def Let_def)

lemma maskStep_frame:
  "heap (maskStep pr n e) = heap e \<and> notesMap (maskStep pr n e) = notesMap e
   \<and> tempNotesMap (maskStep pr n e) = tempNotesMap e
   \<and> totalSixteenths (maskStep pr n e) = totalSixteenths e"
  by (simp add: maskStep_eq addMask_frame)

lemma fold_maskStep_frame:
  "heap (fold (maskStep pr) ns e) = heap e \<and> notesMap (fold (maskStep pr) ns e) = notesMap e
   \<and> tempNotesMap (fold (maskStep pr) ns e) = tempNotesMap e
   \<and> totalSixteenths (fold (maskStep pr) ns e) = totalSixteenths e"
  by (induction ns arbitrary: e) (simp_all add: maskStep_frame)



lemma fold_maskStep_set:
  "set (array_get (generationMasks (fold (maskStep pr) ns e)) v)
     = set (array_get (generationMasks e) v)
       \<union> (\<Union>n \<in> {n \<in> set ns. voice (heap e n) = v}.
            set (range_lodash (max (fst pr) (start (heap e n)))
                   (min (snd pr) (end_n (heap e n)))))"
proof (induction ns arbitrary: e)
  case Nil
  show ?case by simp
next
  case (Cons n ns)
  let ?e1 = "maskStep pr n e"
  have h: "heap ?e1 = heap e" by (simp add: maskStep_frame)
  have s: "set (array_get (generationMasks ?e1) v)
      = set (array_get (generationMasks e) v)
        \<union> (if voice (heap e n) = v
           then set (range_lodash (max (fst pr) (start (heap e n)))
                  (min (snd pr) (end_n (heap e n)))) else {})"
    by (simp add: maskStep_eq addMask_voice addMask_other)
  show ?case
    using Cons.IH [of ?e1] by (auto simp: h s)
qed







text \<open>
  C6. \<open>addMask(v, m)\<close> followed by \<open>removeMask(v, m)\<close> leaves voice \<open>v\<close> with its
  original indices minus those of \<open>m\<close>. So the round trip restores the original set
  of indices when \<open>m\<close> has none of them, and then also the original array if that
  was strictly ascending.
\<close>

theorem mask_round_trip_disjoint:
  "set m \<inter> set (array_get (generationMasks e) v) = {} \<Longrightarrow>
     set (array_get (generationMasks (removeMask (addMask e v m) v m)) v)
       = set (array_get (generationMasks e) v)
     \<and> (sorted_wrt (<) (array_get (generationMasks e) v) \<longrightarrow>
          array_get (generationMasks (removeMask (addMask e v m) v m)) v
            = array_get (generationMasks e) v)"
proof -
  assume d: "set m \<inter> set (array_get (generationMasks e) v) = {}"
  let ?S = "set (array_get (generationMasks e) v)"
  have eq: "(?S \<union> set m) - set m = ?S" using d by auto
  have after: "array_get (generationMasks (removeMask (addMask e v m) v m)) v
      = sorted_list_of_set ?S"
    by (simp add: removeMask_voice addMask_voice eq)
  have "sorted_wrt (<) (array_get (generationMasks e) v) \<Longrightarrow>
      sorted_list_of_set ?S = array_get (generationMasks e) v"
    by (simp add: strict_sorted_iff sorted_list_of_set.idem_if_sorted_distinct)
  then show ?thesis using after by simp
qed

theorem mask_round_trip_disjoint_witness:
  "set [4, 5] \<inter> set (array_get (generationMasks masked_editor) 0) = {}
   \<and> sorted_wrt (<) (array_get (generationMasks masked_editor) 0)
   \<and> array_get (generationMasks (removeMask (addMask masked_editor 0 [4, 5]) 0 [4, 5])) 0
       = array_get (generationMasks masked_editor) 0"
proof -
  have hyps: "set [4, 5] \<inter> set (array_get (generationMasks masked_editor) 0) = {}"
    "sorted_wrt (<) (array_get (generationMasks masked_editor) 0)"
    by (simp_all add: masked_editor_def example_editor_def array_get_def)
  show ?thesis
    using mask_round_trip_disjoint [of "[4, 5]" masked_editor 0] hyps by simp
qed

theorem mask_round_trip_counterexample:
  "array_get (generationMasks masked_editor) 0 = [2, 3]
   \<and> array_get (generationMasks (removeMask (addMask masked_editor 0 [3, 4]) 0 [3, 4])) 0 = [2]
   \<and> set (array_get (generationMasks (removeMask (addMask masked_editor 0 [3, 4]) 0 [3, 4])) 0)
       \<noteq> set (array_get (generationMasks masked_editor) 0)"
proof -
  have a: "generationMasks (addMask masked_editor 0 [3, 4]) = [[2, 3, 4], [], [], []]"
    by (simp add: addMask_def Let_def masked_editor_def example_editor_def array_get_def
        array_set_def new_Set_def set_add_def)
  have r: "generationMasks (removeMask (addMask masked_editor 0 [3, 4]) 0 [3, 4])
      = [[2], [], [], []]"
    by (simp add: removeMask_def Let_def a array_get_def array_set_def new_Set_def
        set_add_def set_delete_def)
  have b: "generationMasks masked_editor = [[2, 3], [], [], []]"
    by (simp add: masked_editor_def example_editor_def)
  show ?thesis
    by (simp add: r b array_get_def)
qed




text \<open>
  C5. For every note of the store that overlaps the selection (its pitch within the
  pitch range, both ends included, and its position within the position range or
  before it with its span reaching past the start), \<open>maskNotes\<close> puts
  every index of the intersection of the note's \<open>[start, end)\<close> with the position
  range into the mask of the note's voice, and it changes no note and neither note
  collection. With the single example note (pitch 60, position 0, duration 4,
  soprano), \<open>maskNotes([2, 8], [60, 60])\<close> makes the soprano mask \<open>[2, 3]\<close>.
\<close>

theorem maskNotes_masks_intersection:
  "(n \<in> set (allNotes e) \<and> overlaps (heap e n) pr vr
      \<and> max (fst pr) (start (heap e n)) \<le> i \<and> i < min (snd pr) (end_n (heap e n)) \<longrightarrow>
      i \<in> set (array_get (generationMasks (maskNotes e pr vr)) (voice (heap e n))))
   \<and> heap (maskNotes e pr vr) = heap e
   \<and> notesMap (maskNotes e pr vr) = notesMap e
   \<and> tempNotesMap (maskNotes e pr vr) = tempNotesMap e
   \<and> array_get (generationMasks (maskNotes one_note_editor (2, 8) (60, 60))) SOPRANO = [2, 3]
   \<and> (overlaps (heap e n) pr vr \<longleftrightarrow>
        fst vr \<le> pitch (heap e n) \<and> pitch (heap e n) \<le> snd vr
        \<and> (fst pr \<le> position (heap e n) \<and> position (heap e n) < snd pr
           \<or> position (heap e n) < fst pr
             \<and> position (heap e n) + duration (heap e n) > fst pr))"
proof -
  have selection: "overlaps (heap e n) pr vr \<longleftrightarrow>
        fst vr \<le> pitch (heap e n) \<and> pitch (heap e n) \<le> snd vr
        \<and> (fst pr \<le> position (heap e n) \<and> position (heap e n) < snd pr
           \<or> position (heap e n) < fst pr
             \<and> position (heap e n) + duration (heap e n) > fst pr)"
    by (auto simp: overlaps_def Let_def)
  have scenario:
    "array_get (generationMasks (maskNotes one_note_editor (2, 8) (60, 60))) SOPRANO = [2, 3]"
    by (simp add: maskNotes_def Let_def example_store overlaps_def example_note_def
        maskStep_def start_def end_n_def range_lodash_def addMask_def new_Set_def
        array_get_def array_set_def set_add_def SOPRANO_def)
  have "i \<in> set (array_get (generationMasks (maskNotes e pr vr)) (voice (heap e n)))"
    if n: "n \<in> set (allNotes e)" and o: "overlaps (heap e n) pr vr"
      and lo: "max (fst pr) (start (heap e n)) \<le> i"
      and hi: "i < min (snd pr) (end_n (heap e n))"
  proof -
    have "i \<in> set (range_lodash (max (fst pr) (start (heap e n)))
        (min (snd pr) (end_n (heap e n))))"
      using lo hi by (simp add: set_range_lodash)
    then show ?thesis
      unfolding maskNotes_def Let_def fold_maskStep_set using n o by auto
  qed
  then have "n \<in> set (allNotes e) \<and> overlaps (heap e n) pr vr
      \<and> max (fst pr) (start (heap e n)) \<le> i \<and> i < min (snd pr) (end_n (heap e n)) \<longrightarrow>
      i \<in> set (array_get (generationMasks (maskNotes e pr vr)) (voice (heap e n)))"
    by blast
  moreover have "heap (maskNotes e pr vr) = heap e \<and> notesMap (maskNotes e pr vr) = notesMap e
      \<and> tempNotesMap (maskNotes e pr vr) = tempNotesMap e"
    by (simp add: maskNotes_def Let_def fold_maskStep_frame)
  ultimately show ?thesis
    using scenario selection by blast
qed

theorem maskNotes_masks_intersection_witness:
  "1 \<in> set (allNotes one_note_editor)
   \<and> overlaps (heap one_note_editor 1) (2, 8) (60, 60)
   \<and> max 2 (start (heap one_note_editor 1)) \<le> 3
   \<and> 3 < min 8 (end_n (heap one_note_editor 1))
   \<and> 3 \<in> set (array_get (generationMasks (maskNotes one_note_editor (2, 8) (60, 60)))
         (voice (heap one_note_editor 1)))"
proof -
  let ?E = "one_note_editor"
  have hyps: "1 \<in> set (allNotes ?E)" "overlaps (heap ?E 1) (2, 8) (60, 60)"
    "max 2 (start (heap ?E 1)) \<le> 3" "3 < min 8 (end_n (heap ?E 1))"
    by (simp_all add: example_store example_note_def overlaps_def start_def end_n_def)
  show ?thesis
    using maskNotes_masks_intersection [of 1 ?E "(2, 8)" "(60, 60)" 3] hyps by simp
qed

section \<open>The flag-toggling editor: results\<close>

lemma overlaps_isMasked: "overlaps (n\<lparr>isMasked := b\<rparr>) pr vr = overlaps n pr vr"
  by (simp add: overlaps_def)

lemma toggleStep_twice: "toggleStep pr vr x (toggleStep pr vr x e) = e"
  by (simp add: toggleStep_def overlaps_isMasked)

lemma toggleStep_commute:
  "toggleStep pr vr x (toggleStep pr vr y e) = toggleStep pr vr y (toggleStep pr vr x e)"
  by (cases "x = y") (auto simp: toggleStep_def overlaps_isMasked fun_upd_twist)

lemma toggleStep_fold_commute:
  "toggleStep pr vr x (fold (toggleStep pr vr) xs e) = fold (toggleStep pr vr) xs (toggleStep pr vr x e)"
  by (induction xs arbitrary: e) (simp_all add: toggleStep_commute)

lemma fold_toggleStep_twice:
  "fold (toggleStep pr vr) xs (fold (toggleStep pr vr) xs e) = e"
proof (induction xs arbitrary: e)
  case Nil
  show ?case by simp
next
  case (Cons x xs)
  have "fold (toggleStep pr vr) (x # xs) (fold (toggleStep pr vr) (x # xs) e)
      = fold (toggleStep pr vr) xs (toggleStep pr vr x (fold (toggleStep pr vr) xs (toggleStep pr vr x e)))"
    by simp
  also have "\<dots> = fold (toggleStep pr vr) xs (fold (toggleStep pr vr) xs (toggleStep pr vr x (toggleStep pr vr x e)))"
    by (simp only: toggleStep_fold_commute)
  also have "\<dots> = e"
    by (simp only: toggleStep_twice Cons.IH)
  finally show ?case .
qed

lemma toggleStep_maps:
  "userNotesMap (toggleStep pr vr x e) = userNotesMap e
   \<and> agentNotesMap (toggleStep pr vr x e) = agentNotesMap e"
  by (simp add: toggleStep_def)

lemma fold_toggleStep_maps:
  "userNotesMap (fold (toggleStep pr vr) xs e) = userNotesMap e
   \<and> agentNotesMap (fold (toggleStep pr vr) xs e) = agentNotesMap e"
  by (induction xs arbitrary: e) (simp_all add: toggleStep_maps)

text \<open>
  C10. In the flag-toggling editor \<open>maskNotes\<close> is an involution: two calls in a row
  with the same ranges give back the editor as it was, the \<open>isMasked\<close> flag and
  every other attribute of every note included.
\<close>

theorem maskNotes_flag_involution:
  "maskNotes_flag (maskNotes_flag e pr vr) pr vr = e"
proof -
  let ?xs = "userNotes e @ agentNotes e"
  let ?e1 = "fold (toggleStep pr vr) ?xs e"
  have "userNotes ?e1 @ agentNotes ?e1 = ?xs"
    by (simp only: userNotes_def agentNotes_def fold_toggleStep_maps)
  then have "maskNotes_flag (maskNotes_flag e pr vr) pr vr = fold (toggleStep pr vr) ?xs ?e1"
    by (simp only: maskNotes_flag_def)
  then show ?thesis
    by (simp only: fold_toggleStep_twice)
qed

end
